theory Spec2Isabelle
  imports Main "HOL-Library.Multiset" "HOL-Library.Sublist"
begin

section \<open>Data model\<close>

text \<open>
  The task payload and the configuration that \<open>signingscript/task.py\<close> reads, as records.
  An entry of \<open>payload.upstreamArtifacts\<close> is a dict with the keys \<open>taskId\<close>, \<open>paths\<close> and
  \<open>formats\<close>. \<open>context.task\<close> is \<open>None\<close> before a task is claimed, hence the option.
  Functions keep their names in the source, without the leading underscore of the private
  ones (\<open>_sort_formats\<close> is \<open>sort_formats\<close>); a parameter whose name is taken by a
  constant is renamed (\<open>prefixes\<close> is \<open>prefix_list\<close>, \<open>formats\<close> is \<open>fmts\<close>).
\<close>

record artifact =
  taskId :: string
  paths :: "string list"
  formats :: "string list"

record payload =
  upstreamArtifacts :: "artifact list"

record task =
  scopes :: "string list"
  payload :: payload

record config =
  taskcluster_scope_prefixes :: "string list"
  work_dir :: string

record Context =
  task :: "task option"
  config :: config

text \<open>
  Exceptions as values. Each constructor is the exception class with the message it carries.
  Where the Python interpolates the \<open>repr\<close> of a list into a message, the model keeps the
  fixed text only. \<open>TaskVerificationError\<close> carries a list of lines: \<open>build_filelist_dict\<close>
  raises it with a list of messages, \<open>task_cert_type\<close> with one message.
  \<open>BackendError\<close> stands for whatever a signing or packing collaborator raises.
\<close>

datatype error =
    ValueError string
  | KeyError string
  | TypeError string
  | TaskVerificationError "string list"
  | BackendError string

fun is_ValueError :: "error \<Rightarrow> bool" where
  "is_ValueError (ValueError m) = True"
| "is_ValueError e = False"

fun is_TaskVerificationError :: "error \<Rightarrow> bool" where
  "is_TaskVerificationError (TaskVerificationError ms) = True"
| "is_TaskVerificationError e = False"

text \<open>
  The signing functions imported from \<open>signingscript.sign\<close>, by name. Their bodies are not
  part of \<open>task.py\<close>; the registry only refers to them.
\<close>

datatype operation =
    sign_gpg | sign_jar | sign_macapp | sign_widevine | sign_file
  | sign_mar384_with_autograph_hash | sign_gpg_with_autograph | sign_omnija | sign_langpack
  | sign_authenticode_zip

text \<open>
  The values that flow through \<open>output\<close> in \<open>sign\<close>: a path (\<open>str\<close>), or a list or a tuple
  of paths, as a signing function with detached signatures returns.
\<close>

datatype pyval = PStr string | PList "string list" | PTuple "string list"

section \<open>Python primitives\<close>

definition startswith :: "string \<Rightarrow> string \<Rightarrow> bool" where
  "startswith s p = prefix p s"

definition endswith :: "string \<Rightarrow> string \<Rightarrow> bool" where
  "endswith s p = prefix (rev p) (rev s)"

text \<open>\<open>s.split(sep)\<close> for a separator of one character.\<close>

fun str_split :: "char \<Rightarrow> string \<Rightarrow> string list" where
  "str_split sep [] = [[]]"
| "str_split sep (c # cs) =
     (let r = str_split sep cs in if c = sep then [] # r else (c # hd r) # tl r)"

text \<open>
  \<open>os.path.join(a, *p)\<close> of \<open>posixpath\<close>: a component that starts with the separator
  discards what came before it; otherwise it is appended, with a separator unless the path
  is empty or already ends with one.
\<close>

definition join_step :: "string \<Rightarrow> string \<Rightarrow> string" where
  "join_step path b =
     (if startswith b ''/'' then b
      else if path = [] \<or> endswith path ''/'' then path @ b
      else path @ ''/'' @ b)"

definition os_path_join :: "string \<Rightarrow> string list \<Rightarrow> string" where
  "os_path_join a p = foldl join_step a p"

text \<open>
  \<open>scriptworker.utils.get_single_item_from_sequence\<close>: the items satisfying the condition
  are collected; exactly one is returned, none or several raise \<open>ErrorClass\<close> with the
  corresponding message (to which the library appends the \<open>repr\<close> of the sequence).
\<close>

definition get_single_item_from_sequence ::
  "'a list \<Rightarrow> ('a \<Rightarrow> bool) \<Rightarrow> (string \<Rightarrow> error) \<Rightarrow> string \<Rightarrow> string \<Rightarrow> error + 'a" where
  "get_single_item_from_sequence sequence condition ErrorClass no_item_error_message
       too_many_item_error_message =
     (let filtered_sequence = filter condition sequence;
          number_of_items_in_filtered_sequence = length filtered_sequence
      in if number_of_items_in_filtered_sequence = 0 then Inl (ErrorClass no_item_error_message)
         else if number_of_items_in_filtered_sequence > 1
           then Inl (ErrorClass too_many_item_error_message)
         else Inr (filtered_sequence ! 0))"

text \<open>A dict with string keys as an association list: \<open>d[k]\<close> and \<open>d.get(k, dflt)\<close>.\<close>

definition dict_getitem :: "(string \<times> 'v) list \<Rightarrow> string \<Rightarrow> error + 'v" where
  "dict_getitem d k = (case map_of d k of None \<Rightarrow> Inl (KeyError k) | Some v \<Rightarrow> Inr v)"

definition dict_get :: "(string \<times> 'v) list \<Rightarrow> string \<Rightarrow> 'v \<Rightarrow> 'v" where
  "dict_get d k dflt = (case map_of d k of None \<Rightarrow> dflt | Some v \<Rightarrow> v)"

subsection \<open>Regular expressions: \<open>re.match\<close>\<close>

text \<open>
  The fragment of Python's pattern syntax that the registry keys use: literal characters,
  \<open>.\<close> (any character but a newline), \<open>\w\<close>, groups, and the postfix operators \<open>+\<close> and
  \<open>?\<close>. \<open>r+\<close> is \<open>Times r (Star r)\<close> and \<open>r?\<close> is \<open>Alt r One\<close>.
  Characters are code points below 256; \<open>is_word_char\<close> is \<open>\w\<close> on that range
  (alphanumeric in Unicode, or the underscore).
\<close>

datatype atom = Lit char | Dot | Word

datatype regex = Zero | One | Atom atom | Alt regex regex | Times regex regex | Star regex

definition is_word_char :: "char \<Rightarrow> bool" where
  "is_word_char c =
     (let n = (of_char c :: nat) in
        (48 \<le> n \<and> n \<le> 57) \<or> (65 \<le> n \<and> n \<le> 90) \<or> n = 95 \<or> (97 \<le> n \<and> n \<le> 122)
        \<or> n \<in> {170, 178, 179, 181, 185, 186, 188, 189, 190}
        \<or> (192 \<le> n \<and> n \<le> 214) \<or> (216 \<le> n \<and> n \<le> 246) \<or> (248 \<le> n \<and> n \<le> 255))"

fun atom_matches :: "atom \<Rightarrow> char \<Rightarrow> bool" where
  "atom_matches (Lit d) c = (c = d)"
| "atom_matches Dot c = (c \<noteq> CHR 0x0A)"
| "atom_matches Word c = is_word_char c"

fun nullable :: "regex \<Rightarrow> bool" where
  "nullable Zero = False"
| "nullable One = True"
| "nullable (Atom a) = False"
| "nullable (Alt r s) = (nullable r \<or> nullable s)"
| "nullable (Times r s) = (nullable r \<and> nullable s)"
| "nullable (Star r) = True"

fun deriv :: "char \<Rightarrow> regex \<Rightarrow> regex" where
  "deriv c Zero = Zero"
| "deriv c One = Zero"
| "deriv c (Atom a) = (if atom_matches a c then One else Zero)"
| "deriv c (Alt r s) = Alt (deriv c r) (deriv c s)"
| "deriv c (Times r s) =
     (if nullable r then Alt (Times (deriv c r) s) (deriv c s) else Times (deriv c r) s)"
| "deriv c (Star r) = Times (deriv c r) (Star r)"

fun prefix_match :: "regex \<Rightarrow> string \<Rightarrow> bool" where
  "prefix_match r [] = nullable r"
| "prefix_match r (c # cs) = (nullable r \<or> prefix_match (deriv c r) cs)"

definition seq_of :: "regex list \<Rightarrow> regex" where
  "seq_of rs = foldr Times rs One"

fun re_parse :: "string \<Rightarrow> bool \<Rightarrow> regex list \<Rightarrow> regex list list \<Rightarrow> regex option" where
  "re_parse [] q cur stack = (if stack = [] then Some (seq_of (rev cur)) else None)"
| "re_parse (c # cs) q cur stack =
     (if c = CHR ''('' then re_parse cs False [] (cur # stack)
      else if c = CHR '')'' then
        (case stack of [] \<Rightarrow> None
         | outer # stack' \<Rightarrow> re_parse cs False (seq_of (rev cur) # outer) stack')
      else if c = CHR ''+'' then
        (case cur of [] \<Rightarrow> None
         | r # rs \<Rightarrow> if q then None else re_parse cs True (Times r (Star r) # rs) stack)
      else if c = CHR ''?'' then
        (case cur of [] \<Rightarrow> None
         | r # rs \<Rightarrow> if q then None else re_parse cs True (Alt r One # rs) stack)
      else if c = CHR ''.'' then re_parse cs False (Atom Dot # cur) stack
      else if c = CHR 0x5C then
        (case cs of [] \<Rightarrow> None
         | d # cs' \<Rightarrow> if d = CHR ''w'' then re_parse cs' False (Atom Word # cur) stack else None)
      else if c \<in> set ''*|[]{}^$'' then None
      else re_parse cs False (Atom (Lit c) # cur) stack)"

text \<open>
  \<open>re.match(pattern, s) is not None\<close>: the pattern matches at the start of \<open>s\<close>, and the
  match may stop before the end of \<open>s\<close>. \<open>re_compile\<close> is \<open>None\<close> on a pattern outside the
  fragment above; every key of the registry is inside it (lemma \<open>registry_keys_compile\<close>).
\<close>

definition re_compile :: "string \<Rightarrow> regex option" where
  "re_compile pattern = re_parse pattern False [] []"

definition re_match :: "string \<Rightarrow> string \<Rightarrow> bool" where
  "re_match pattern s = (case re_compile pattern of None \<Rightarrow> False | Some r \<Rightarrow> prefix_match r s)"

text \<open>
  \<open>re.fullmatch(pattern, s) is not None\<close>: the pattern matches the whole of \<open>s\<close>. The source
  does not call it; it is the reading of "fully matches the requested string" to compare
  \<open>re_match\<close> with.
\<close>

fun full_match :: "regex \<Rightarrow> string \<Rightarrow> bool" where
  "full_match r [] = nullable r"
| "full_match r (c # cs) = full_match (deriv c r) cs"

definition re_fullmatch :: "string \<Rightarrow> string \<Rightarrow> bool" where
  "re_fullmatch pattern s = (case re_compile pattern of None \<Rightarrow> False | Some r \<Rightarrow> full_match r s)"

text \<open>The language of a pattern, to state what the two matchers decide.\<close>

definition conc :: "string set \<Rightarrow> string set \<Rightarrow> string set" where
  "conc A B = {u @ v | u v. u \<in> A \<and> v \<in> B}"

inductive_set star :: "string set \<Rightarrow> string set" for A :: "string set" where
  star_nil: "[] \<in> star A"
| star_app: "u \<in> A \<Longrightarrow> v \<in> star A \<Longrightarrow> u @ v \<in> star A"

fun lang :: "regex \<Rightarrow> string set" where
  "lang Zero = {}"
| "lang One = {[]}"
| "lang (Atom a) = {[c] | c. atom_matches a c}"
| "lang (Alt r s) = lang r \<union> lang s"
| "lang (Times r s) = conc (lang r) (lang s)"
| "lang (Star r) = star (lang r)"

text \<open>The characters that stand for themselves in a pattern, and a pattern of such characters.\<close>

definition plain_char :: "char \<Rightarrow> bool" where
  "plain_char c \<longleftrightarrow> c \<notin> set ''()+?.*|[]{}^$'' \<and> c \<noteq> CHR 0x5C"

abbreviation lits :: "string \<Rightarrow> regex list" where
  "lits k \<equiv> map (\<lambda>c. Atom (Lit c)) k"

section \<open>Format Resolver\<close>

text \<open>\<open>FORMAT_TO_SIGNING_FUNCTION\<close> (task.py, lines 35-55), in the order of the source.\<close>

definition FORMAT_TO_SIGNING_FUNCTION :: "(string \<times> operation) list" where
  "FORMAT_TO_SIGNING_FUNCTION =
     [(''autograph_focus'', sign_jar),
      (''autograph_apk_.+'', sign_jar),
      (''autograph_hash_only_mar384(:'' @ CHR 0x5C # ''w+)?'', sign_mar384_with_autograph_hash),
      (''autograph_stage_mar384(:'' @ CHR 0x5C # ''w+)?'', sign_mar384_with_autograph_hash),
      (''gpg'', sign_gpg),
      (''autograph_gpg'', sign_gpg_with_autograph),
      (''jar'', sign_jar),
      (''focus-jar'', sign_jar),
      (''macapp'', sign_macapp),
      (''widevine'', sign_widevine),
      (''autograph_widevine'', sign_widevine),
      (''autograph_omnija'', sign_omnija),
      (''autograph_langpack'', sign_langpack),
      (''autograph_authenticode'', sign_authenticode_zip),
      (''autograph_authenticode_stub'', sign_authenticode_zip),
      (''default'', sign_file)]"

text \<open>
  The body of \<open>_get_signing_function_from_format\<close> over any registry: the single item
  whose key matches, and on \<open>ValueError\<close> (none or several)
  \<open>registry.get(format, registry["default"])\<close>, whose second argument is evaluated first.
\<close>

definition resolve_format :: "(string \<times> operation) list \<Rightarrow> string \<Rightarrow> error + operation" where
  "resolve_format registry format =
     (case get_single_item_from_sequence registry (\<lambda>item. re_match (fst item) format)
             ValueError ''No item matched condition'' ''Too many items matched condition'' of
        Inr item \<Rightarrow> Inr (snd item)
      | Inl e \<Rightarrow>
          if is_ValueError e then
            (case dict_getitem registry ''default'' of
               Inl e' \<Rightarrow> Inl e'
             | Inr dflt \<Rightarrow> Inr (dict_get registry format dflt))
          else Inl e)"

text \<open>\<open>_get_signing_function_from_format\<close> (the leading underscore cannot start a name here).\<close>

definition get_signing_function_from_format :: "string \<Rightarrow> error + operation" where
  "get_signing_function_from_format format = resolve_format FORMAT_TO_SIGNING_FUNCTION format"

text \<open>The registry keys that match a format, under either notion of matching.\<close>

definition matching_keys :: "string \<Rightarrow> string list" where
  "matching_keys format = filter (\<lambda>k. re_match k format) (map fst FORMAT_TO_SIGNING_FUNCTION)"

definition fully_matching_keys :: "string \<Rightarrow> string list" where
  "fully_matching_keys format =
     filter (\<lambda>k. re_fullmatch k format) (map fst FORMAT_TO_SIGNING_FUNCTION)"

section \<open>Format Orderer\<close>

text \<open>
  The fixed tuple the loop of \<open>_sort_formats\<close> (task.py, lines 238-245) runs over.
\<close>

definition priority_formats :: "string list" where
  "priority_formats =
     [''widevine'', ''autograph_widevine'', ''autograph_omnija'', ''macapp'', ''gpg'',
      ''autograph_gpg'']"

text \<open>
  One iteration of the loop body: \<open>if fmt in formats: formats.remove(fmt);
  formats.append(fmt)\<close>. Python's \<open>list.remove\<close> deletes the first occurrence only,
  which is \<^const>\<open>remove1\<close>.
\<close>

definition move_to_end :: "string \<Rightarrow> string list \<Rightarrow> string list" where
  "move_to_end fmt fmts = (if fmt \<in> set fmts then remove1 fmt fmts @ [fmt] else fmts)"

text \<open>
  \<open>_sort_formats\<close>: the loop over the fixed tuple, threading the list. The source mutates
  its argument in place and returns the same object; this is the content of that object
  on return. The sharing of the object matters in \<open>build_filelist_dict\<close> below.
\<close>

definition sort_formats :: "string list \<Rightarrow> string list" where
  "sort_formats fmts = foldl (\<lambda>fs fmt. move_to_end fmt fs) fmts priority_formats"

section \<open>Scope Authorizer\<close>

definition get_scope_prefixes :: "Context \<Rightarrow> string \<Rightarrow> string list" where
  "get_scope_prefixes context sub_namespace =
     (let prefix_list = taskcluster_scope_prefixes (config context);
          prefix_list = map (\<lambda>pfx. if endswith pfx '':'' then pfx else pfx @ '':'')
                       prefix_list
      in map (\<lambda>pfx. pfx @ sub_namespace @ '':'') prefix_list)"

definition get_cert_prefixes :: "Context \<Rightarrow> string list" where
  "get_cert_prefixes context = get_scope_prefixes context ''cert''"

text \<open>
  The \<open>for ... else\<close> of \<open>_check_scopes_exist_and_all_have_the_same_prefix\<close>: the \<open>else\<close>
  branch raises when no prefix made the loop \<open>break\<close>.
\<close>

definition check_scopes_exist_and_all_have_the_same_prefix ::
  "string list \<Rightarrow> string list \<Rightarrow> error + unit" where
  "check_scopes_exist_and_all_have_the_same_prefix scs prefix_list =
     (if list_ex (\<lambda>pfx. list_all (\<lambda>scope. startswith scope pfx) scs) prefix_list
      then Inr ()
      else Inl (TaskVerificationError [''Scopes must exist and all have the same prefix.'']))"

text \<open>
  The comprehension \<open>[scope for scope in scopes for prefix in prefixes if
  scope.startswith(prefix)]\<close> yields a scope once for every prefix it starts with.
\<close>

definition extract_scopes_from_unique_prefix ::
  "string list \<Rightarrow> string list \<Rightarrow> error + string list" where
  "extract_scopes_from_unique_prefix scs prefix_list =
     (let scs' = [scope. scope \<leftarrow> scs, pfx \<leftarrow> prefix_list, startswith scope pfx]
      in case check_scopes_exist_and_all_have_the_same_prefix scs' prefix_list of
           Inl e \<Rightarrow> Inl e
         | Inr u \<Rightarrow> Inr scs')"

definition task_cert_type :: "Context \<Rightarrow> error + string" where
  "task_cert_type context =
     (case task context of
        None \<Rightarrow> Inl (TaskVerificationError [''No scopes found''])
      | Some t \<Rightarrow>
          if scopes t = [] then Inl (TaskVerificationError [''No scopes found''])
          else
            (let prefix_list = get_cert_prefixes context in
             case extract_scopes_from_unique_prefix (scopes t) prefix_list of
               Inl e \<Rightarrow> Inl e
             | Inr scs \<Rightarrow>
                 get_single_item_from_sequence scs (\<lambda>_. True)
                   (\<lambda>m. TaskVerificationError [m])
                   ''No scope starting with any of these prefixes found''
                   ''More than one scope found''))"

section \<open>Archive Lifecycle Manager\<close>

text \<open>
  \<open>sign\<close> and \<open>make_archive\<close> call collaborators whose code is outside \<open>task.py\<close>: the file
  system (\<open>os.path.isdir\<close>), \<open>extract_archive\<close>, the signing functions, and the helpers
  \<open>_get_files\<close>, \<open>_create_zipfile\<close> and \<open>_create_tarfile\<close> of \<open>signingscript.sign\<close>.
  They are parameters, over a state \<open>'w\<close> of the world that they read and change; each
  may raise.
\<close>

record 'w env =
  isdir :: "'w \<Rightarrow> string \<Rightarrow> bool"
  extract_archive :: "'w \<Rightarrow> pyval \<Rightarrow> error + (pyval \<times> 'w)"
  signing_function :: "operation \<Rightarrow> 'w \<Rightarrow> pyval \<Rightarrow> string \<Rightarrow> error + (pyval \<times> 'w)"
  get_files :: "'w \<Rightarrow> pyval \<Rightarrow> error + string list"
  create_zipfile :: "'w \<Rightarrow> string \<Rightarrow> string list \<Rightarrow> pyval \<Rightarrow> error + (pyval \<times> 'w)"
  create_tarfile :: "'w \<Rightarrow> string \<Rightarrow> string list \<Rightarrow> string \<Rightarrow> pyval \<Rightarrow> error + (pyval \<times> 'w)"

text \<open>
  Every call to a collaborator is recorded, with its arguments, in the order made:
  \<open>CreateZip to files tmp_dir\<close>, \<open>CreateTar to files compression tmp_dir\<close>,
  \<open>Sign operation path fmt\<close>. A run yields its outcome and the calls it made; the calls
  are also there when the run raised.
\<close>

datatype call =
    Extract pyval
  | GetFiles pyval
  | CreateZip string "string list" pyval
  | CreateTar string "string list" string pyval
  | Sign operation pyval string

type_synonym 'w run = "(error + (pyval \<times> 'w)) \<times> call list"

text \<open>
  \<open>os.path.isdir(output)\<close>: \<open>os.stat\<close> raises \<open>TypeError\<close> on a list or a tuple, and
  \<open>isdir\<close> lets it through.
\<close>

fun os_path_isdir :: "'w env \<Rightarrow> 'w \<Rightarrow> pyval \<Rightarrow> error + bool" where
  "os_path_isdir E w (PStr p) = Inr (isdir E w p)"
| "os_path_isdir E w v = Inl (TypeError ''stat: path should be string, bytes, os.PathLike or integer'')"

text \<open>\<open>"Unsupported archive format {}".format(archive_ext)\<close>; \<open>archive_ext\<close> may be \<open>None\<close>.\<close>

definition unsupported_archive_format :: "string option \<Rightarrow> error" where
  "unsupported_archive_format archive_ext =
     ValueError (''Unsupported archive format '' @ (case archive_ext of None \<Rightarrow> ''None'' | Some e \<Rightarrow> e))"

definition make_archive :: "'w env \<Rightarrow> 'w \<Rightarrow> pyval \<Rightarrow> string option \<Rightarrow> string \<Rightarrow> 'w run" where
  "make_archive E w dirname archive_ext output =
     (case get_files E w dirname of
        Inl e \<Rightarrow> (Inl e, [GetFiles dirname])
      | Inr files \<Rightarrow>
          if archive_ext = Some ''.zip'' then
            (create_zipfile E w output files dirname,
             [GetFiles dirname, CreateZip output files dirname])
          else if archive_ext \<in> {Some ''.tar.bz2'', Some ''.tar.gz''} then
            (let compression = last (str_split (CHR ''.'') (the archive_ext)) in
             (create_tarfile E w output files compression dirname,
              [GetFiles dirname, CreateTar output files compression dirname]))
          else (Inl (unsupported_archive_format archive_ext), [GetFiles dirname]))"

definition archive_formats :: "string list" where
  "archive_formats = [''autograph_widevine'', ''autograph_omnija'', ''autograph_authenticode'']"

text \<open>
  The \<open>if fmt in archive_formats: ... else: ...\<close> at the head of the loop body of \<open>sign\<close>
  (lines 186-193): unpack before an archive-aware format unless the current location is a
  directory already, pack again before any other format if it is one.
\<close>

definition archive_step ::
  "'w env \<Rightarrow> string option \<Rightarrow> string \<Rightarrow> string \<Rightarrow> pyval \<Rightarrow> 'w \<Rightarrow> 'w run" where
  "archive_step E archive_ext path fmt output w =
     (if fmt \<in> set archive_formats then
        (case os_path_isdir E w output of
           Inl e \<Rightarrow> (Inl e, [])
         | Inr d \<Rightarrow>
             if \<not> d then (extract_archive E w output, [Extract output])
             else (Inr (output, w), []))
      else
        (case os_path_isdir E w output of
           Inl e \<Rightarrow> (Inl e, [])
         | Inr d \<Rightarrow>
             if d then make_archive E w output archive_ext path
             else (Inr (output, w), [])))"

text \<open>
  The \<open>for fmt in signing_formats\<close> loop of \<open>sign\<close> (lines 184-195), with the loop state
  \<open>output\<close> and \<open>recreate_archive\<close> passed along. \<open>archive_ext\<close> and \<open>path\<close> do not change.
  After the archive step \<open>recreate_archive\<close> is \<open>True\<close> exactly for an archive-aware format.
\<close>

fun sign_loop ::
  "'w env \<Rightarrow> string option \<Rightarrow> string \<Rightarrow> string list \<Rightarrow> pyval \<Rightarrow> bool \<Rightarrow> 'w
     \<Rightarrow> (error + ((pyval \<times> bool) \<times> 'w)) \<times> call list" where
  "sign_loop E archive_ext path [] output recreate_archive w =
     (Inr ((output, recreate_archive), w), [])"
| "sign_loop E archive_ext path (fmt # fmts) output recreate_archive w =
     (case get_signing_function_from_format fmt of
        Inl e \<Rightarrow> (Inl e, [])
      | Inr signing_func \<Rightarrow>
         (case archive_step E archive_ext path fmt output w of
            (Inl e, cs) \<Rightarrow> (Inl e, cs)
          | (Inr (output1, w1), cs) \<Rightarrow>
              (case signing_function E signing_func w1 output1 fmt of
                 Inl e \<Rightarrow> (Inl e, cs @ [Sign signing_func output1 fmt])
               | Inr (output2, w2) \<Rightarrow>
                   (case sign_loop E archive_ext path fmts output2 (fmt \<in> set archive_formats) w2
                    of (r, cs') \<Rightarrow> (r, cs @ [Sign signing_func output1 fmt] @ cs')))))"

definition archive_ext_of :: "string \<Rightarrow> string option" where
  "archive_ext_of path =
     (if endswith path ''.zip'' then Some ''.zip''
      else if endswith path ''.tar.gz'' then Some ''.tar.gz''
      else if endswith path ''.tar.bz2'' then Some ''.tar.bz2''
      else None)"

text \<open>\<open>if not isinstance(output, (tuple, list)): output = [output]\<close>\<close>

fun as_list :: "pyval \<Rightarrow> pyval" where
  "as_list (PStr s) = PList [s]"
| "as_list v = v"

definition sign :: "'w env \<Rightarrow> 'w \<Rightarrow> string \<Rightarrow> string list \<Rightarrow> 'w run" where
  "sign E w path signing_formats =
     (let archive_ext = archive_ext_of path in
      case sign_loop E archive_ext path signing_formats (PStr path) False w of
        (Inl e, cs) \<Rightarrow> (Inl e, cs)
      | (Inr ((output, recreate_archive), w1), cs) \<Rightarrow>
          (case (if recreate_archive then make_archive E w1 output archive_ext path
                 else (Inr (output, w1), []))
           of
             (Inl e, cs') \<Rightarrow> (Inl e, cs @ cs')
           | (Inr (output1, w2), cs') \<Rightarrow> (Inr (as_list output1, w2), cs @ cs')))"

section \<open>Upstream Artifact Resolver\<close>

text \<open>
  \<open>build_filelist_dict\<close> stores, for every path, the list object that
  \<open>_sort_formats(artifact_dict["formats"])\<close> returns: the group's own \<open>formats\<close> list,
  reordered in place. All entries of a group share that object, and a later call on the
  same group reorders it again under the earlier entries. The store is therefore explicit:
  the list of groups is the heap, the index of a group is the address of its \<open>formats\<close>
  list, and an entry holds that address.
\<close>

record file_entry =
  full_path :: string
  formats_ref :: nat

record filelist_state =
  heap :: "artifact list"
  filelist_dict :: "string \<rightharpoonup> file_entry"
  messages :: "string list"

definition doesnt_exist :: "string \<Rightarrow> string" where
  "doesnt_exist p = p @ '' doesn'' @ [CHR 0x27] @ ''t exist!''"

text \<open>The inner loop \<open>for path in artifact_dict["paths"]\<close>, for the group at index \<open>i\<close>.\<close>

fun paths_loop ::
  "(string \<Rightarrow> bool) \<Rightarrow> string \<Rightarrow> nat \<Rightarrow> string list \<Rightarrow> filelist_state \<Rightarrow> filelist_state" where
  "paths_loop path_exists wd i [] st = st"
| "paths_loop path_exists wd i (path # ps) st =
     (let artifact_dict = heap st ! i;
          fp = os_path_join wd [''cot'', taskId artifact_dict, path];
          msgs = (if \<not> path_exists fp then messages st @ [doesnt_exist fp] else messages st);
          sorted = sort_formats (formats artifact_dict)
      in paths_loop path_exists wd i ps
           \<lparr>heap = (heap st)[i := artifact_dict\<lparr>formats := sorted\<rparr>],
            filelist_dict = (filelist_dict st)(path \<mapsto> \<lparr>full_path = fp, formats_ref = i\<rparr>),
            messages = msgs\<rparr>)"

text \<open>The outer loop \<open>for artifact_dict in ...["upstreamArtifacts"]\<close>, by index.\<close>

definition artifacts_loop ::
  "(string \<Rightarrow> bool) \<Rightarrow> string \<Rightarrow> artifact list \<Rightarrow> filelist_state" where
  "artifacts_loop path_exists wd arts =
     fold (\<lambda>i st. paths_loop path_exists wd i (paths (heap st ! i)) st) [0..<length arts]
       \<lparr>heap = arts, filelist_dict = Map.empty, messages = []\<rparr>"

text \<open>
  \<open>build_filelist_dict\<close>. \<open>path_exists\<close> is \<open>os.path.exists\<close> on the disk at hand. The
  result is the dict together with the heap its entries point into. Subscripting a
  \<open>None\<close> task raises \<open>TypeError\<close>.
\<close>

definition build_filelist_dict ::
  "(string \<Rightarrow> bool) \<Rightarrow> Context \<Rightarrow> error + ((string \<rightharpoonup> file_entry) \<times> artifact list)" where
  "build_filelist_dict path_exists context =
     (case task context of
        None \<Rightarrow> Inl (TypeError ''NoneType object is not subscriptable'')
      | Some t \<Rightarrow>
          (let st = artifacts_loop path_exists (work_dir (config context))
                      (upstreamArtifacts (payload t))
           in if messages st \<noteq> [] then Inl (TaskVerificationError (messages st))
              else Inr (filelist_dict st, heap st)))"

text \<open>The formats an entry of the returned dict shows: the list its address points to.\<close>

definition entry_formats :: "artifact list \<Rightarrow> file_entry \<Rightarrow> string list" where
  "entry_formats h e = formats (h ! formats_ref e)"

section \<open>Properties stated about runs\<close>

text \<open>
  What a packing call must look like for a run on \<open>path\<close> whose extension is \<open>ext\<close>: it
  writes to \<open>path\<close>, as a zip file when the extension is \<open>.zip\<close>, as a tar file with the
  matching compression otherwise. Other calls are not constrained.
\<close>

fun repack_with :: "string option \<Rightarrow> string \<Rightarrow> call \<Rightarrow> bool" where
  "repack_with ext path (CreateZip to files d) = (to = path \<and> ext = Some ''.zip'')"
| "repack_with ext path (CreateTar to files c d) =
     (to = path \<and> ((c = ''gz'' \<and> ext = Some ''.tar.gz'') \<or> (c = ''bz2'' \<and> ext = Some ''.tar.bz2'')))"
| "repack_with ext path c = True"

text \<open>
  Modelled from the spec: the collaborators of \<open>signingscript.sign\<close> are not in \<open>task.py\<close>.
  A small world to run \<open>sign\<close> in: the state is the list of directories on disk;
  unpacking creates a fresh working directory; a packer writes the container to the
  destination it is given and returns that destination; the two gpg operations return the
  signed file and a detached signature, every other operation signs in place.
\<close>

definition demo_env :: "string list env" where
  "demo_env =
     \<lparr>isdir = (\<lambda>w p. p \<in> set w),
      extract_archive = (\<lambda>w v. case v of
          PStr p \<Rightarrow> Inr (PStr (p @ ''.tmp''), (p @ ''.tmp'') # w)
        | _ \<Rightarrow> Inl (BackendError ''extract_archive'')),
      signing_function = (\<lambda>f w v fmt. case v of
          PStr p \<Rightarrow> if f = sign_gpg \<or> f = sign_gpg_with_autograph
                    then Inr (PList [p, p @ ''.asc''], w) else Inr (PStr p, w)
        | _ \<Rightarrow> Inl (BackendError ''sign'')),
      get_files = (\<lambda>w v. Inr []),
      create_zipfile = (\<lambda>w to files d. Inr (PStr to, w)),
      create_tarfile = (\<lambda>w to files c d. Inr (PStr to, w))\<rparr>"


text \<open>
  The list that \<open>task_cert_type\<close> hands to \<open>get_single_item_from_sequence\<close>: the
  comprehension of \<open>_extract_scopes_from_unique_prefix\<close> on the task's scopes and the
  constructed prefixes.
\<close>

definition cert_scopes :: "Context \<Rightarrow> task \<Rightarrow> string list" where
  "cert_scopes context t =
     [scope. scope \<leftarrow> scopes t, pfx \<leftarrow> get_cert_prefixes context, startswith scope pfx]"

text \<open>
  The scopes of the task that start with at least one constructed prefix, each as often as
  the task lists it.
\<close>

definition starts_with_any :: "string list \<Rightarrow> string \<Rightarrow> bool" where
  "starts_with_any prefix_list scope = list_ex (startswith scope) prefix_list"

definition scopes_with_cert_prefix :: "Context \<Rightarrow> task \<Rightarrow> string list" where
  "scopes_with_cert_prefix context t =
     filter (starts_with_any (get_cert_prefixes context)) (scopes t)"

text \<open>
  The absolute location computed for a path of a group, the locations of all groups in the
  order the loops visit them, and those that are not on disk.
\<close>

definition location :: "string \<Rightarrow> artifact \<Rightarrow> string \<Rightarrow> string" where
  "location wd a p = os_path_join wd [''cot'', taskId a, p]"

definition all_locations :: "string \<Rightarrow> artifact list \<Rightarrow> string list" where
  "all_locations wd arts = concat (map (\<lambda>a. map (location wd a) (paths a)) arts)"

definition missing_locations :: "(string \<Rightarrow> bool) \<Rightarrow> string \<Rightarrow> artifact list \<Rightarrow> string list" where
  "missing_locations path_exists wd arts = filter (\<lambda>fp. \<not> path_exists fp) (all_locations wd arts)"

text \<open>The location as the spec writes it: \<open>{work_dir}/cot/{taskId}/{path}\<close>.\<close>

definition template_location :: "string \<Rightarrow> artifact \<Rightarrow> string \<Rightarrow> string" where
  "template_location wd a p = wd @ ''/cot/'' @ taskId a @ ''/'' @ p"

text \<open>
  What a result of \<open>build_filelist_dict\<close> holds for a path: its entry, and the formats the
  entry shows. A disk on which every location exists.
\<close>

definition result_entry ::
  "error + ((string \<rightharpoonup> file_entry) \<times> artifact list) \<Rightarrow> string \<Rightarrow> file_entry option" where
  "result_entry r p = (case r of Inl e \<Rightarrow> None | Inr (d, h) \<Rightarrow> d p)"

definition result_formats ::
  "error + ((string \<rightharpoonup> file_entry) \<times> artifact list) \<Rightarrow> string \<Rightarrow> string list option" where
  "result_formats r p =
     (case r of Inl e \<Rightarrow> None | Inr (d, h) \<Rightarrow> map_option (entry_formats h) (d p))"

definition everything_exists :: "string \<Rightarrow> bool" where
  "everything_exists p = True"

text \<open>
  A group after the loop over its paths: its \<open>formats\<close> list has been reordered once per
  path.
\<close>

definition reordered :: "artifact \<Rightarrow> artifact" where
  "reordered a = a\<lparr>formats := (sort_formats ^^ length (paths a)) (formats a)\<rparr>"

text \<open>The state of the outer loop after the first \<open>k\<close> groups.\<close>

definition loop_inv ::
  "(string \<Rightarrow> bool) \<Rightarrow> string \<Rightarrow> artifact list \<Rightarrow> nat \<Rightarrow> filelist_state \<Rightarrow> bool" where
  "loop_inv pe wd arts k st \<longleftrightarrow>
     length (heap st) = length arts
     \<and> (\<forall>j<length arts. heap st ! j = (if j < k then reordered (arts ! j) else arts ! j))
     \<and> messages st = map doesnt_exist (missing_locations pe wd (take k arts))
     \<and> dom (filelist_dict st) = (\<Union>a\<in>set (take k arts). set (paths a))
     \<and> (\<forall>p e. filelist_dict st p = Some e \<longrightarrow>
            formats_ref e < k \<and> p \<in> set (paths (arts ! formats_ref e))
            \<and> full_path e = location wd (arts ! formats_ref e) p
            \<and> (\<forall>j<k. p \<in> set (paths (arts ! j)) \<longrightarrow> j \<le> formats_ref e))"

text \<open>A context with the given scope prefixes, task scopes and artifact groups.\<close>

definition demo_context :: "string list \<Rightarrow> string list \<Rightarrow> artifact list \<Rightarrow> Context" where
  "demo_context prefix_list scs arts =
     \<lparr>task = Some \<lparr>scopes = scs, payload = \<lparr>upstreamArtifacts = arts\<rparr>\<rparr>,
      config = \<lparr>taskcluster_scope_prefixes = prefix_list, work_dir = ''/work''\<rparr>\<rparr>"

section \<open>Lemmas\<close>

subsection \<open>Format Orderer\<close>

lemma move_to_end_mset: "mset (move_to_end f xs) = mset xs"
  by (simp add: move_to_end_def)

lemma foldl_move_to_end_mset: "mset (foldl (\<lambda>fs fmt. move_to_end fmt fs) xs ps) = mset xs"
  by (induction ps arbitrary: xs) (simp_all add: move_to_end_mset)

lemma foldl_move_to_end_distinct:
  assumes "distinct xs" and "distinct ps"
  shows "foldl (\<lambda>fs fmt. move_to_end fmt fs) xs ps
           = filter (\<lambda>x. x \<notin> set ps) xs @ filter (\<lambda>p. p \<in> set xs) ps"
  using assms(2)
proof (induction ps rule: rev_induct)
  case Nil
  show ?case by simp
next
  case (snoc p ps)
  let ?A = "filter (\<lambda>x. x \<notin> set ps) xs"
  let ?B = "filter (\<lambda>q. q \<in> set xs) ps"
  from snoc.prems have dps: "distinct ps" and pps: "p \<notin> set ps" by simp_all
  have prev: "foldl (\<lambda>fs fmt. move_to_end fmt fs) xs ps = ?A @ ?B"
    using snoc.IH [OF dps] .
  show ?case
  proof (cases "p \<in> set xs")
    case True
    hence inA: "p \<in> set ?A" using pps by simp
    have dA: "distinct ?A" using assms(1) by simp
    have "remove1 p (?A @ ?B) = remove1 p ?A @ ?B"
      using inA by (simp add: remove1_append)
    also have "remove1 p ?A = filter (\<lambda>x. x \<noteq> p) ?A"
      using dA by (simp add: distinct_remove1_removeAll removeAll_filter_not_eq) metis
    finally have "move_to_end p (?A @ ?B) = filter (\<lambda>x. x \<noteq> p) ?A @ ?B @ [p]"
      using inA by (simp add: move_to_end_def)
    moreover have "filter (\<lambda>x. x \<noteq> p) ?A = filter (\<lambda>x. x \<notin> set (ps @ [p])) xs"
      by (simp add: conj_commute)
    ultimately show ?thesis using True prev by simp
  next
    case False
    hence notin: "p \<notin> set (?A @ ?B)" by simp
    have "move_to_end p (?A @ ?B) = ?A @ ?B"
      by (simp only: move_to_end_def notin if_False)
    moreover have "?A = filter (\<lambda>x. x \<notin> set (ps @ [p])) xs"
      using False by (auto intro: filter_cong)
    ultimately show ?thesis using False prev by simp
  qed
qed

lemma distinct_priority_formats: "distinct priority_formats"
  by (simp add: priority_formats_def)

lemma sort_formats_distinct_eq:
  "distinct xs \<Longrightarrow>
     sort_formats xs = filter (\<lambda>x. x \<notin> set priority_formats) xs
                        @ filter (\<lambda>p. p \<in> set xs) priority_formats"
  unfolding sort_formats_def
  by (rule foldl_move_to_end_distinct [OF _ distinct_priority_formats])

lemma sort_formats_mset: "mset (sort_formats xs) = mset xs"
  by (simp add: sort_formats_def foldl_move_to_end_mset)

lemma sort_formats_keeps_distinct: "distinct xs \<Longrightarrow> distinct (sort_formats xs)"
  by (metis sort_formats_mset mset_eq_imp_distinct_iff)

lemma sort_formats_set: "set (sort_formats xs) = set xs"
  by (metis sort_formats_mset set_mset_mset)

lemma sort_formats_idem_distinct:
  assumes "distinct xs"
  shows "sort_formats (sort_formats xs) = sort_formats xs"
proof -
  let ?P = "priority_formats"
  let ?A = "filter (\<lambda>x. x \<notin> set ?P) xs"
  let ?B = "filter (\<lambda>p. p \<in> set xs) ?P"
  have one: "sort_formats xs = ?A @ ?B" by (rule sort_formats_distinct_eq [OF assms])
  have "sort_formats (sort_formats xs)
          = filter (\<lambda>x. x \<notin> set ?P) (sort_formats xs)
            @ filter (\<lambda>p. p \<in> set (sort_formats xs)) ?P"
    by (rule sort_formats_distinct_eq [OF sort_formats_keeps_distinct [OF assms]])
  also have "filter (\<lambda>p. p \<in> set (sort_formats xs)) ?P = ?B"
    by (simp add: sort_formats_set)
  also have "filter (\<lambda>x. x \<notin> set ?P) (sort_formats xs) = ?A"
  proof -
    have "filter (\<lambda>x. x \<notin> set ?P) ?B = []" by (auto simp: filter_empty_conv)
    thus ?thesis by (simp add: one)
  qed
  finally show ?thesis by (simp add: one)
qed

subsection \<open>Regular expressions\<close>

text \<open>
  The two matchers decide what their names say: \<open>prefix_match\<close> holds when some prefix of
  the string is in the language of the pattern, \<open>full_match\<close> when the string itself is.
\<close>

lemma nullable_iff: "nullable r \<longleftrightarrow> [] \<in> lang r"
  by (induction r) (auto simp: conc_def intro: star.star_nil)

lemma Cons_in_conc:
  "c # w \<in> conc A B \<longleftrightarrow>
     (\<exists>u v. w = u @ v \<and> c # u \<in> A \<and> v \<in> B) \<or> ([] \<in> A \<and> c # w \<in> B)"
  unfolding conc_def
  by (auto simp: Cons_eq_append_conv) 

lemma Cons_in_star:
  "c # w \<in> star A \<longleftrightarrow> (\<exists>u v. w = u @ v \<and> c # u \<in> A \<and> v \<in> star A)"
proof
  assume "c # w \<in> star A"
  then show "\<exists>u v. w = u @ v \<and> c # u \<in> A \<and> v \<in> star A"
  proof (induction "c # w" arbitrary: w rule: star.induct)
    case (star_app u v)
    show ?case
    proof (cases u)
      case Nil
      with star_app show ?thesis by simp
    next
      case (Cons d u')
      with star_app.hyps(1,2,4) show ?thesis by auto
    qed
  qed
next
  assume "\<exists>u v. w = u @ v \<and> c # u \<in> A \<and> v \<in> star A"
  then obtain u v where "w = u @ v" "c # u \<in> A" "v \<in> star A" by blast
  then show "c # w \<in> star A" using star.star_app [of "c # u" A v] by simp
qed

lemma lang_deriv: "w \<in> lang (deriv c r) \<longleftrightarrow> c # w \<in> lang r"
proof (induction r arbitrary: w)
  case (Times r s)
  have "w \<in> lang (deriv c (Times r s)) \<longleftrightarrow>
          (\<exists>u v. w = u @ v \<and> u \<in> lang (deriv c r) \<and> v \<in> lang s)
          \<or> (nullable r \<and> w \<in> lang (deriv c s))"
    by (auto simp: conc_def)
  also have "\<dots> \<longleftrightarrow>
          (\<exists>u v. w = u @ v \<and> c # u \<in> lang r \<and> v \<in> lang s)
          \<or> ([] \<in> lang r \<and> c # w \<in> lang s)"
    by (simp add: Times nullable_iff)
  also have "\<dots> \<longleftrightarrow> c # w \<in> lang (Times r s)"
    by (simp add: Cons_in_conc)
  finally show ?case .
next
  case (Star r)
  have "w \<in> lang (deriv c (Star r)) \<longleftrightarrow>
          (\<exists>u v. w = u @ v \<and> u \<in> lang (deriv c r) \<and> v \<in> star (lang r))"
    by (auto simp: conc_def)
  also have "\<dots> \<longleftrightarrow> c # w \<in> lang (Star r)"
    by (simp add: Star Cons_in_star)
  finally show ?case .
qed auto

lemma full_match_iff: "full_match r s \<longleftrightarrow> s \<in> lang r"
  by (induction s arbitrary: r) (simp_all add: nullable_iff lang_deriv)

lemma prefix_match_iff: "prefix_match r s \<longleftrightarrow> (\<exists>u \<in> lang r. prefix u s)"
proof (induction s arbitrary: r)
  case Nil
  show ?case by (simp add: nullable_iff)
next
  case (Cons c cs)
  show ?case
  proof
    assume "prefix_match r (c # cs)"
    then consider "nullable r" | "prefix_match (deriv c r) cs" by auto
    then show "\<exists>u \<in> lang r. prefix u (c # cs)"
    proof cases
      case 1
      then have "[] \<in> lang r" by (simp add: nullable_iff)
      then show ?thesis by (intro bexI [of _ "[]"]) simp_all
    next
      case 2
      then obtain u where "u \<in> lang (deriv c r)" "prefix u cs" using Cons by blast
      then show ?thesis using lang_deriv by (intro bexI [of _ "c # u"]) simp_all
    qed
  next
    assume "\<exists>u \<in> lang r. prefix u (c # cs)"
    then obtain u where u: "u \<in> lang r" "prefix u (c # cs)" by blast
    show "prefix_match r (c # cs)"
    proof (cases u)
      case Nil
      with u show ?thesis by (simp add: nullable_iff)
    next
      case (Cons d u')
      with u have "d = c" "prefix u' cs" "u' \<in> lang (deriv c r)" by (simp_all add: lang_deriv)
      then show ?thesis using Cons.IH by auto
    qed
  qed
qed

text \<open>
  A pattern without special characters matches at the start of exactly the strings it is a
  prefix of, and matches the whole of itself only.
\<close>

lemma re_parse_plain:
  "\<forall>c \<in> set k. plain_char c \<Longrightarrow> k \<noteq> [] \<Longrightarrow>
     re_parse (k @ rest) q cur stack = re_parse rest False (rev (lits k) @ cur) stack"
proof (induction k arbitrary: q cur)
  case Nil
  then show ?case by simp
next
  case (Cons c k)
  from Cons.prems have c: "plain_char c" and k: "\<forall>c \<in> set k. plain_char c" by simp_all
  have step: "re_parse ((c # k) @ rest) q cur stack = re_parse (k @ rest) False (Atom (Lit c) # cur) stack"
    using c by (simp add: plain_char_def)
  show ?case
  proof (cases "k = []")
    case True
    from step show ?thesis unfolding True by (simp del: re_parse.simps)
  next
    case False
    from Cons.IH [OF k False] step show ?thesis by (simp del: re_parse.simps)
  qed
qed

lemma re_compile_plain:
  assumes "\<forall>c \<in> set k. plain_char c"
  shows "re_compile k = Some (seq_of (lits k))"
proof (cases "k = []")
  case True
  then show ?thesis by (simp add: re_compile_def)
next
  case False
  from re_parse_plain [OF assms False, of "[]" False "[]" "[]"] show ?thesis
    by (simp add: re_compile_def)
qed

lemma lang_lits: "lang (seq_of (lits k)) = {k}"
  unfolding seq_of_def by (induction k) (auto simp: conc_def)

lemma re_match_plain:
  assumes "\<forall>c \<in> set k. plain_char c"
  shows "re_match k s \<longleftrightarrow> prefix k s"
  by (simp add: re_match_def re_compile_plain [OF assms] prefix_match_iff lang_lits)

lemma re_fullmatch_plain:
  assumes "\<forall>c \<in> set k. plain_char c"
  shows "re_fullmatch k s \<longleftrightarrow> s = k"
  by (simp add: re_fullmatch_def re_compile_plain [OF assms] full_match_iff lang_lits)

lemma full_match_imp_prefix_match: "full_match r s \<Longrightarrow> prefix_match r s"
  unfolding full_match_iff prefix_match_iff by auto

subsection \<open>Format Resolver\<close>

lemmas re_eval = re_match_def re_fullmatch_def re_compile_def seq_of_def

lemma registry_keys_compile:
  "list_all (\<lambda>k. re_compile k \<noteq> None) (map fst FORMAT_TO_SIGNING_FUNCTION)"
  by (simp add: FORMAT_TO_SIGNING_FUNCTION_def re_compile_def)

lemma keys_match_themselves:
  "list_all (\<lambda>k. re_match k k) (map fst FORMAT_TO_SIGNING_FUNCTION)"
  by (simp add: FORMAT_TO_SIGNING_FUNCTION_def re_eval)

lemma registry_keys_distinct: "distinct (map fst FORMAT_TO_SIGNING_FUNCTION)"
  by (simp add: FORMAT_TO_SIGNING_FUNCTION_def)

lemma registry_default: "map_of FORMAT_TO_SIGNING_FUNCTION ''default'' = Some sign_file"
  by (simp add: FORMAT_TO_SIGNING_FUNCTION_def)

lemma resolve_format_single:
  assumes "filter (\<lambda>item. re_match (fst item) fmt) registry = [item]"
  shows "resolve_format registry fmt = Inr (snd item)"
  using assms by (simp add: resolve_format_def get_single_item_from_sequence_def)

lemma resolve_format_fallback:
  assumes "length (filter (\<lambda>item. re_match (fst item) fmt) registry) \<noteq> 1"
    and "map_of registry ''default'' = Some d"
  shows "resolve_format registry fmt = Inr (dict_get registry fmt d)"
proof -
  let ?n = "length (filter (\<lambda>item. re_match (fst item) fmt) registry)"
  from assms(1) have "?n = 0 \<or> 1 < ?n" by arith
  thus ?thesis using assms(2)
    by (auto simp: resolve_format_def get_single_item_from_sequence_def Let_def dict_getitem_def)
qed

lemma matching_keys_items:
  "matching_keys fmt = map fst (filter (\<lambda>item. re_match (fst item) fmt) FORMAT_TO_SIGNING_FUNCTION)"
  by (simp add: matching_keys_def filter_map comp_def)

lemma key_in_matching_keys:
  assumes "map_of FORMAT_TO_SIGNING_FUNCTION fmt = Some f"
  shows "fmt \<in> set (matching_keys fmt)"
proof -
  from assms have k: "fmt \<in> set (map fst FORMAT_TO_SIGNING_FUNCTION)"
    by (metis map_of_eq_None_iff option.distinct(1) set_map)
  with keys_match_themselves have "re_match fmt fmt" unfolding list_all_iff by blast
  with k show ?thesis by (simp add: matching_keys_def)
qed

lemma resolver_total: "\<exists>f. get_signing_function_from_format fmt = Inr f"
proof (cases "length (filter (\<lambda>item. re_match (fst item) fmt) FORMAT_TO_SIGNING_FUNCTION) = 1")
  case True
  then obtain item where
    "filter (\<lambda>item. re_match (fst item) fmt) FORMAT_TO_SIGNING_FUNCTION = [item]"
    by (auto simp: length_Suc_conv)
  from resolve_format_single [OF this] show ?thesis
    by (simp add: get_signing_function_from_format_def)
next
  case False
  from resolve_format_fallback [OF False registry_default] show ?thesis
    by (simp add: get_signing_function_from_format_def)
qed

lemma resolve_widevine:
  "get_signing_function_from_format ''autograph_widevine'' = Inr sign_widevine"
  by (simp add: get_signing_function_from_format_def resolve_format_def
      get_single_item_from_sequence_def FORMAT_TO_SIGNING_FUNCTION_def re_eval)

lemma resolve_jar: "get_signing_function_from_format ''jar'' = Inr sign_jar"
  by (simp add: get_signing_function_from_format_def resolve_format_def
      get_single_item_from_sequence_def FORMAT_TO_SIGNING_FUNCTION_def re_eval)

lemma resolve_gpg:
  "get_signing_function_from_format ''autograph_gpg'' = Inr sign_gpg_with_autograph"
  by (simp add: get_signing_function_from_format_def resolve_format_def
      get_single_item_from_sequence_def FORMAT_TO_SIGNING_FUNCTION_def re_eval)

subsection \<open>Archive Lifecycle Manager\<close>

lemma make_archive_calls:
  "list_all (repack_with ext path) (snd (make_archive E w d ext path))"
  by (auto simp: make_archive_def Let_def split: sum.splits)

lemma archive_step_calls:
  "list_all (repack_with ext path) (snd (archive_step E ext path fmt out w))"
  using make_archive_calls [of ext path E w out]
  by (auto simp: archive_step_def split: sum.splits)

lemma sign_loop_calls:
  "list_all (repack_with ext path) (snd (sign_loop E ext path fmts out r w))"
proof (induction fmts arbitrary: out r w)
  case Nil
  show ?case by simp
next
  case (Cons fmt fmts)
  obtain f where f: "get_signing_function_from_format fmt = Inr f"
    using resolver_total by blast
  obtain r1 cs where step: "archive_step E ext path fmt out w = (r1, cs)"
    by (cases "archive_step E ext path fmt out w")
  have cs: "list_all (repack_with ext path) cs"
    using archive_step_calls [of ext path E fmt out w] step by simp
  show ?case
  proof (cases r1)
    case (Inl e)
    with f step cs show ?thesis by simp
  next
    case (Inr ow)
    obtain o1 w1 where ow: "ow = (o1, w1)" by (cases ow)
    show ?thesis
    proof (cases "signing_function E f w1 o1 fmt")
      case (Inl e)
      with f step cs Inr ow show ?thesis by simp
    next
      case sf: (Inr ow2)
      obtain o2 w2 where ow2: "ow2 = (o2, w2)" by (cases ow2)
      obtain r3 cs3 where rec:
        "sign_loop E ext path fmts o2 (fmt \<in> set archive_formats) w2 = (r3, cs3)"
        by (cases "sign_loop E ext path fmts o2 (fmt \<in> set archive_formats) w2")
      have "list_all (repack_with ext path) cs3"
        using Cons.IH [of o2 "fmt \<in> set archive_formats" w2] rec by simp
      with f step cs Inr ow sf ow2 rec show ?thesis by simp
    qed
  qed
qed




lemma archive_ext_of_cases:
  "archive_ext_of path = Some e \<Longrightarrow> e \<in> {''.zip'', ''.tar.gz'', ''.tar.bz2''} \<and> endswith path e"
  by (auto simp: archive_ext_of_def split: if_splits)

lemma sign_calls:
  "list_all (repack_with (archive_ext_of path) path) (snd (sign E w path fmts))"
proof -
  let ?ext = "archive_ext_of path"
  obtain r cs where loop: "sign_loop E ?ext path fmts (PStr path) False w = (r, cs)"
    by (cases "sign_loop E ?ext path fmts (PStr path) False w")
  have cs: "list_all (repack_with ?ext path) cs"
    using sign_loop_calls [of ?ext path E fmts "PStr path" False w] loop by simp
  show ?thesis
  proof (cases r)
    case (Inl e)
    with loop cs show ?thesis by (simp add: sign_def)
  next
    case (Inr x)
    obtain out rec w1 where x: "x = ((out, rec), w1)" by (cases x) auto
    obtain r2 cs2 where fin:
      "(if rec then make_archive E w1 out ?ext path else (Inr (out, w1), [])) = (r2, cs2)"
      by (cases "(if rec then make_archive E w1 out ?ext path else (Inr (out, w1), []::call list))")
    have cs2: "list_all (repack_with ?ext path) cs2"
      using make_archive_calls [of ?ext path E w1 out] fin by (cases rec) auto
    show ?thesis
      using loop Inr x fin cs cs2 unfolding sign_def Let_def
      by (cases r2) (auto split: prod.splits)
  qed
qed

lemma sign_final_repack:
  assumes "sign_loop E (archive_ext_of path) path fmts (PStr path) False w = (Inr ((out, True), w1), cs)"
  shows "snd (sign E w path fmts) = cs @ snd (make_archive E w1 out (archive_ext_of path) path)"
  using assms unfolding sign_def Let_def
  by (auto split: sum.splits prod.splits)

lemma intermediate_step:
  assumes "fmt \<notin> set archive_formats" and "isdir E w d"
  shows "\<exists>rest. snd (sign_loop E ext path (fmt # fmts) (PStr d) r w)
                  = snd (make_archive E w (PStr d) ext path) @ rest"
    and "fst (make_archive E w (PStr d) ext path) = Inl e
          \<Longrightarrow> fst (sign_loop E ext path (fmt # fmts) (PStr d) r w) = Inl e"
proof -
  obtain f where f: "get_signing_function_from_format fmt = Inr f"
    using resolver_total by blast
  show "\<exists>rest. snd (sign_loop E ext path (fmt # fmts) (PStr d) r w)
                  = snd (make_archive E w (PStr d) ext path) @ rest"
    using assms unfolding sign_loop.simps f archive_step_def
    by (auto split: sum.splits prod.splits)
  show "fst (make_archive E w (PStr d) ext path) = Inl e
          \<Longrightarrow> fst (sign_loop E ext path (fmt # fmts) (PStr d) r w) = Inl e"
    using assms unfolding sign_loop.simps f archive_step_def
    by (auto split: sum.splits prod.splits)
qed

subsection \<open>Scope Authorizer\<close>

lemma scope_block:
  "[x. pfx \<leftarrow> P, startswith x pfx] = replicate (length (filter (startswith x) P)) x"
  by (induction P) auto

lemma in_comprehension:
  "s \<in> set [scope. scope \<leftarrow> S, pfx \<leftarrow> P, startswith scope pfx]
     \<longleftrightarrow> s \<in> set S \<and> (\<exists>p \<in> set P. startswith s p)"
  by auto

lemma comprehension_blocks:
  "[scope. scope \<leftarrow> S, pfx \<leftarrow> P, startswith scope pfx]
     = concat (map (\<lambda>x. replicate (length (filter (startswith x) P)) x) S)"
  by (induction S) (auto simp: scope_block)

lemma block_empty_iff:
  "replicate (length (filter (startswith x) P)) x = [] \<longleftrightarrow> \<not> (\<exists>p \<in> set P. startswith x p)"
  by (auto simp: filter_empty_conv)

lemma comprehension_single:
  assumes "filter (\<lambda>x. \<exists>p \<in> set P. startswith x p) S = [s]"
    and "length (filter (startswith s) P) = 1"
  shows "[scope. scope \<leftarrow> S, pfx \<leftarrow> P, startswith scope pfx] = [s]"
  using assms(1)
proof (induction S)
  case Nil
  then show ?case by simp
next
  case (Cons x S)
  show ?case
  proof (cases "\<exists>p \<in> set P. startswith x p")
    case True
    with Cons.prems have x: "x = s" and rest: "filter (\<lambda>x. \<exists>p \<in> set P. startswith x p) S = []"
      by simp_all
    from rest have "concat (map (\<lambda>x. replicate (length (filter (startswith x) P)) x) S) = []"
      by (auto simp: filter_empty_conv)
    with x assms(2) show ?thesis unfolding comprehension_blocks by simp
  next
    case False
    with Cons.prems have "filter (\<lambda>x. \<exists>p \<in> set P. startswith x p) S = [s]" by simp
    from Cons.IH [OF this] False show ?thesis
      unfolding comprehension_blocks by (simp add: filter_empty_conv)
  qed
qed

lemma comprehension_empty:
  "filter (\<lambda>x. \<exists>p \<in> set P. startswith x p) S = []
     \<Longrightarrow> [scope. scope \<leftarrow> S, pfx \<leftarrow> P, startswith scope pfx] = []"
  unfolding comprehension_blocks by (auto simp: filter_empty_conv)

lemma comprehension_length:
  "length (filter (\<lambda>x. \<exists>p \<in> set P. startswith x p) S)
     \<le> length [scope. scope \<leftarrow> S, pfx \<leftarrow> P, startswith scope pfx]"
  unfolding comprehension_blocks
proof (induction S)
  case Nil
  show ?case by simp
next
  case (Cons x S)
  show ?case
  proof (cases "\<exists>p \<in> set P. startswith x p")
    case True
    hence "filter (startswith x) P \<noteq> []" by (auto simp: filter_empty_conv)
    hence len: "1 \<le> length (filter (startswith x) P)"
      by (cases "filter (startswith x) P") simp_all
    let ?C = "concat (map (\<lambda>x. replicate (length (filter (startswith x) P)) x) S)"
    have "length (filter (\<lambda>x. \<exists>p \<in> set P. startswith x p) (x # S))
            = 1 + length (filter (\<lambda>x. \<exists>p \<in> set P. startswith x p) S)"
      using True by simp
    also have "\<dots> \<le> 1 + length ?C" using Cons by simp
    also have "\<dots> \<le> length (filter (startswith x) P) + length ?C"
      using len by (rule add_right_mono)
    finally show ?thesis by simp
  next
    case False
    with Cons show ?thesis by simp
  qed
qed

lemma scopes_with_cert_prefix_alt:
  "scopes_with_cert_prefix ctx t
     = filter (\<lambda>x. \<exists>p \<in> set (get_cert_prefixes ctx). startswith x p) (scopes t)"
  by (simp add: scopes_with_cert_prefix_def starts_with_any_def [abs_def] list_ex_iff)

lemma cert_scopes_not_single:
  assumes "length (scopes_with_cert_prefix ctx t) \<noteq> 1"
  shows "length (cert_scopes ctx t) \<noteq> 1"
proof (cases "scopes_with_cert_prefix ctx t = []")
  case True
  hence "cert_scopes ctx t = []"
    unfolding cert_scopes_def scopes_with_cert_prefix_alt by (rule comprehension_empty)
  then show ?thesis by simp
next
  case False
  hence "length (scopes_with_cert_prefix ctx t) \<noteq> 0" by simp
  with assms have "2 \<le> length (scopes_with_cert_prefix ctx t)" by arith
  moreover have "length (scopes_with_cert_prefix ctx t) \<le> length (cert_scopes ctx t)"
    unfolding cert_scopes_def scopes_with_cert_prefix_alt by (rule comprehension_length)
  ultimately show ?thesis by simp
qed

lemma task_cert_type_some:
  assumes "task ctx = Some t"
  shows "task_cert_type ctx =
           (if length (cert_scopes ctx t) = 1 then Inr (hd (cert_scopes ctx t))
            else if scopes t = [] then Inl (TaskVerificationError [''No scopes found''])
            else if \<not> (\<exists>p \<in> set (get_cert_prefixes ctx). \<forall>s \<in> set (cert_scopes ctx t). startswith s p)
              then Inl (TaskVerificationError [''Scopes must exist and all have the same prefix.''])
            else if cert_scopes ctx t = []
              then Inl (TaskVerificationError [''No scope starting with any of these prefixes found''])
            else Inl (TaskVerificationError [''More than one scope found'']))"
proof (cases "length (cert_scopes ctx t) = 1")
  case True
  then obtain s where s: "cert_scopes ctx t = [s]"
    by (cases "cert_scopes ctx t") auto
  hence "s \<in> set (cert_scopes ctx t)" by simp
  then obtain p where p: "p \<in> set (get_cert_prefixes ctx)" "startswith s p"
    and "s \<in> set (scopes t)"
    unfolding cert_scopes_def in_comprehension by blast
  hence ne: "scopes t \<noteq> []" by auto
  from s p have chk: "list_ex (\<lambda>pfx. list_all (\<lambda>scope. startswith scope pfx) (cert_scopes ctx t))
                  (get_cert_prefixes ctx)"
    by (auto simp: list_ex_iff)
  show ?thesis
    using assms s ne chk
    unfolding task_cert_type_def extract_scopes_from_unique_prefix_def
      check_scopes_exist_and_all_have_the_same_prefix_def Let_def cert_scopes_def [symmetric]
    by (simp add: get_single_item_from_sequence_def)
next
  case False
  hence "cert_scopes ctx t = [] \<or> 1 < length (cert_scopes ctx t)"
    by (cases "cert_scopes ctx t") auto
  then show ?thesis
    using assms False
    unfolding task_cert_type_def extract_scopes_from_unique_prefix_def
      check_scopes_exist_and_all_have_the_same_prefix_def Let_def cert_scopes_def [symmetric]
    by (auto simp: get_single_item_from_sequence_def list_ex_iff list_all_iff)
qed

subsection \<open>Upstream Artifact Resolver\<close>

text \<open>
  For components without a leading or trailing separator the location is
  \<open>{work_dir}/cot/{taskId}/{path}\<close>.
\<close>

lemma endswith_append_sep:
  "b \<noteq> [] \<Longrightarrow> endswith (a @ b) ''/'' = endswith b ''/''"
  by (cases b rule: rev_cases) (simp_all add: endswith_def)

lemma location_template:
  assumes "wd \<noteq> []" and "\<not> endswith wd ''/''"
    and "taskId a \<noteq> []" and "\<not> startswith (taskId a) ''/''" and "\<not> endswith (taskId a) ''/''"
    and "\<not> startswith p ''/''"
  shows "location wd a p = wd @ ''/cot/'' @ taskId a @ ''/'' @ p"
proof -
  have 1: "join_step wd ''cot'' = wd @ ''/cot''"
    using assms(1,2) by (simp add: join_step_def startswith_def)
  have 2: "join_step (wd @ ''/cot'') (taskId a) = wd @ ''/cot/'' @ taskId a"
    using assms(4) by (simp add: join_step_def endswith_def)
  have e: "\<not> endswith (wd @ ''/cot/'' @ taskId a) ''/''"
    using endswith_append_sep [OF assms(3), of "wd @ ''/cot/''"] assms(5) by simp
  have 3: "join_step (wd @ ''/cot/'' @ taskId a) p = wd @ ''/cot/'' @ taskId a @ ''/'' @ p"
    unfolding join_step_def using assms(6) e by auto
  have "location wd a p = join_step (join_step (join_step wd ''cot'') (taskId a)) p"
    by (simp add: location_def os_path_join_def)
  then show ?thesis unfolding 1 2 3 .
qed

lemma paths_loop_result:
  assumes "i < length (heap st)"
  shows "heap (paths_loop pe wd i ps st)
           = (heap st)[i := (heap st ! i)\<lparr>formats := (sort_formats ^^ length ps) (formats (heap st ! i))\<rparr>]
       \<and> messages (paths_loop pe wd i ps st)
           = messages st @ map doesnt_exist (filter (\<lambda>fp. \<not> pe fp) (map (location wd (heap st ! i)) ps))
       \<and> filelist_dict (paths_loop pe wd i ps st)
           = (\<lambda>p. if p \<in> set ps then Some \<lparr>full_path = location wd (heap st ! i) p, formats_ref = i\<rparr>
                   else filelist_dict st p)"
  using assms
proof (induction ps arbitrary: st)
  case Nil
  show ?case by simp
next
  case (Cons path ps)
  let ?a = "heap st ! i"
  let ?fp = "os_path_join wd [''cot'', taskId ?a, path]"
  let ?st1 = "\<lparr>heap = (heap st)[i := ?a\<lparr>formats := sort_formats (formats ?a)\<rparr>],
            filelist_dict = (filelist_dict st)(path \<mapsto> \<lparr>full_path = ?fp, formats_ref = i\<rparr>),
            messages = (if \<not> pe ?fp then messages st @ [doesnt_exist ?fp] else messages st)\<rparr>"
  have step: "paths_loop pe wd i (path # ps) st = paths_loop pe wd i ps ?st1"
    by (simp add: Let_def)
  have len: "i < length (heap ?st1)" using Cons.prems by simp
  have a1: "heap ?st1 ! i = ?a\<lparr>formats := sort_formats (formats ?a)\<rparr>"
    using Cons.prems by simp
  have loc: "location wd (heap ?st1 ! i) = location wd ?a"
    using Cons.prems by (intro ext) (simp add: location_def)
  show ?case
    unfolding step
    using Cons.IH [OF len] Cons.prems
    by (auto simp: a1 loc location_def funpow_swap1 fun_eq_iff)
qed


lemma loop_inv_step:
  assumes inv: "loop_inv pe wd arts k st" and k: "k < length arts"
  shows "loop_inv pe wd arts (Suc k) (paths_loop pe wd k (paths (heap st ! k)) st)"
proof -
  let ?a = "arts ! k"
  let ?st' = "paths_loop pe wd k (paths (heap st ! k)) st"
  from inv have len: "length (heap st) = length arts"
    and nth: "\<And>j. j < length arts \<Longrightarrow> heap st ! j = (if j < k then reordered (arts ! j) else arts ! j)"
    and msgs: "messages st = map doesnt_exist (missing_locations pe wd (take k arts))"
    and dm: "dom (filelist_dict st) = (\<Union>a\<in>set (take k arts). set (paths a))"
    and ent: "\<And>p e. filelist_dict st p = Some e \<Longrightarrow>
            formats_ref e < k \<and> p \<in> set (paths (arts ! formats_ref e))
            \<and> full_path e = location wd (arts ! formats_ref e) p
            \<and> (\<forall>j<k. p \<in> set (paths (arts ! j)) \<longrightarrow> j \<le> formats_ref e)"
    unfolding loop_inv_def by blast+
  have hk: "heap st ! k = ?a" using nth [OF k] by simp
  have kl: "k < length (heap st)" using k len by simp
  note res = paths_loop_result [OF kl, of pe wd "paths ?a", unfolded hk]
  have heap': "heap ?st' = (heap st)[k := reordered ?a]"
    using res unfolding hk reordered_def by simp
  have msgs': "messages ?st' = messages st
                 @ map doesnt_exist (filter (\<lambda>fp. \<not> pe fp) (map (location wd ?a) (paths ?a)))"
    using res unfolding hk by simp
  have dict': "filelist_dict ?st' =
                 (\<lambda>p. if p \<in> set (paths ?a)
                       then Some \<lparr>full_path = location wd ?a p, formats_ref = k\<rparr>
                       else filelist_dict st p)"
    using res unfolding hk by simp
  have take: "take (Suc k) arts = take k arts @ [?a]"
    using k by (simp add: take_Suc_conv_app_nth)
  have 1: "length (heap ?st') = length arts" by (simp add: heap' len)
  have 2: "\<forall>j<length arts. heap ?st' ! j = (if j < Suc k then reordered (arts ! j) else arts ! j)"
  proof (intro allI impI)
    fix j assume j: "j < length arts"
    show "heap ?st' ! j = (if j < Suc k then reordered (arts ! j) else arts ! j)"
    proof (cases "j = k")
      case True
      then show ?thesis using kl by (simp add: heap')
    next
      case False
      then show ?thesis using nth [OF j] by (auto simp: heap')
    qed
  qed
  have 3: "messages ?st' = map doesnt_exist (missing_locations pe wd (take (Suc k) arts))"
    by (simp add: msgs' msgs take missing_locations_def all_locations_def)
  have 4: "dom (filelist_dict ?st') = (\<Union>a\<in>set (take (Suc k) arts). set (paths a))"
    using dm by (auto simp: dict' take dom_def split: if_splits)
  have 5: "\<forall>p e. filelist_dict ?st' p = Some e \<longrightarrow>
            formats_ref e < Suc k \<and> p \<in> set (paths (arts ! formats_ref e))
            \<and> full_path e = location wd (arts ! formats_ref e) p
            \<and> (\<forall>j<Suc k. p \<in> set (paths (arts ! j)) \<longrightarrow> j \<le> formats_ref e)"
  proof (intro allI impI)
    fix p e assume pe: "filelist_dict ?st' p = Some e"
    show "formats_ref e < Suc k \<and> p \<in> set (paths (arts ! formats_ref e))
            \<and> full_path e = location wd (arts ! formats_ref e) p
            \<and> (\<forall>j<Suc k. p \<in> set (paths (arts ! j)) \<longrightarrow> j \<le> formats_ref e)"
    proof (cases "p \<in> set (paths ?a)")
      case True
      with pe have "e = \<lparr>full_path = location wd ?a p, formats_ref = k\<rparr>"
        by (simp add: dict')
      with True show ?thesis by auto
    next
      case False
      with pe have old: "filelist_dict st p = Some e" by (simp add: dict')
      from ent [OF old] False show ?thesis
        by (auto simp: less_Suc_eq)
    qed
  qed
  from 1 2 3 4 5 show ?thesis unfolding loop_inv_def by blast
qed

lemma loop_inv_fold:
  assumes "k \<le> length arts"
  shows "loop_inv pe wd arts k
           (fold (\<lambda>i st. paths_loop pe wd i (paths (heap st ! i)) st) [0..<k]
              \<lparr>heap = arts, filelist_dict = Map.empty, messages = []\<rparr>)"
  using assms
proof (induction k)
  case 0
  show ?case by (simp add: loop_inv_def missing_locations_def all_locations_def)
next
  case (Suc k)
  hence "k < length arts" and "k \<le> length arts" by simp_all
  from loop_inv_step [OF Suc.IH [OF this(2)] this(1)] show ?case by simp
qed

lemma artifacts_loop_inv:
  "loop_inv pe wd arts (length arts) (artifacts_loop pe wd arts)"
  unfolding artifacts_loop_def by (rule loop_inv_fold) simp

lemma sort_formats_funpow_distinct:
  "distinct fs \<Longrightarrow> 0 < n \<Longrightarrow> (sort_formats ^^ n) fs = sort_formats fs"
proof (induction n)
  case 0
  then show ?case by simp
next
  case (Suc n)
  show ?case
  proof (cases "n = 0")
    case True
    then show ?thesis by simp
  next
    case False
    with Suc have "(sort_formats ^^ n) fs = sort_formats fs" by simp
    then show ?thesis using Suc.prems(1) by (simp add: sort_formats_idem_distinct)
  qed
qed

lemma doesnt_exist_fun:
  "doesnt_exist = (\<lambda>fp. fp @ '' doesn'' @ [CHR 0x27] @ ''t exist!'')"
  by (rule ext) (simp add: doesnt_exist_def)

text \<open>One group: the state after its loop, and the result of \<open>build_filelist_dict\<close>.\<close>

lemma single_group_loop:
  "artifacts_loop pe wd [a]
     = paths_loop pe wd 0 (paths a) \<lparr>heap = [a], filelist_dict = Map.empty, messages = []\<rparr>"
  by (simp add: artifacts_loop_def)

lemma single_group_result:
  "heap (artifacts_loop pe wd [a]) = [reordered a]
   \<and> messages (artifacts_loop pe wd [a])
       = map doesnt_exist (filter (\<lambda>fp. \<not> pe fp) (map (location wd a) (paths a)))
   \<and> filelist_dict (artifacts_loop pe wd [a])
       = (\<lambda>p. if p \<in> set (paths a) then Some \<lparr>full_path = location wd a p, formats_ref = 0\<rparr>
               else None)"
  using paths_loop_result [of 0 "\<lparr>heap = [a], filelist_dict = Map.empty, messages = []\<rparr>" pe wd "paths a"]
  by (simp add: single_group_loop reordered_def cong: if_cong)

lemma single_group_build:
  assumes "list_all pe (map (location ''/work'' a) (paths a))"
  shows "build_filelist_dict pe (demo_context pl scs [a])
           = Inr ((\<lambda>p. if p \<in> set (paths a)
                        then Some \<lparr>full_path = location ''/work'' a p, formats_ref = 0\<rparr>
                        else None),
                  [reordered a])"
proof -
  have "filter (\<lambda>fp. \<not> pe fp) (map (location ''/work'' a) (paths a)) = []"
    using assms by (auto simp: filter_empty_conv list_all_iff)
  with single_group_result [of pe "''/work''" a] show ?thesis
    by (simp add: build_filelist_dict_def demo_context_def Let_def)
qed

section \<open>Claims\<close>

subsection \<open>Format Resolver\<close>

text \<open>
  C1, as amended. For every requested format: if exactly one registry key matches it at
  its start (the key, as a pattern, matches some prefix of the format, which is what
  \<open>re.match\<close> decides, and what the last conjunct says of \<open>matching_keys\<close>), the resolver
  returns that key's operation; if two or more keys
  match, it returns the operation of the registry key equal to the format when there is
  one, and the operation of \<open>"default"\<close> otherwise; if no key matches, it returns the
  operation of \<open>"default"\<close>, which is \<open>sign_file\<close>.
\<close>

theorem format_resolver_precedence:
  "(\<forall>k. matching_keys fmt = [k] \<longrightarrow>
       (\<exists>f. map_of FORMAT_TO_SIGNING_FUNCTION k = Some f
            \<and> get_signing_function_from_format fmt = Inr f))
   \<and> (2 \<le> length (matching_keys fmt) \<longrightarrow>
        (\<forall>f. map_of FORMAT_TO_SIGNING_FUNCTION fmt = Some f
              \<longrightarrow> get_signing_function_from_format fmt = Inr f)
        \<and> (map_of FORMAT_TO_SIGNING_FUNCTION fmt = None
              \<longrightarrow> get_signing_function_from_format fmt = Inr sign_file))
   \<and> (matching_keys fmt = [] \<longrightarrow> get_signing_function_from_format fmt = Inr sign_file)
   \<and> map_of FORMAT_TO_SIGNING_FUNCTION ''default'' = Some sign_file
   \<and> (\<forall>k. k \<in> set (matching_keys fmt) \<longleftrightarrow>
          k \<in> set (map fst FORMAT_TO_SIGNING_FUNCTION)
          \<and> (\<exists>r u. re_compile k = Some r \<and> u \<in> lang r \<and> prefix u fmt))"
proof (intro conjI allI impI)
  fix k
  show "k \<in> set (matching_keys fmt) \<longleftrightarrow>
          k \<in> set (map fst FORMAT_TO_SIGNING_FUNCTION)
          \<and> (\<exists>r u. re_compile k = Some r \<and> u \<in> lang r \<and> prefix u fmt)"
    by (auto simp: matching_keys_def re_match_def prefix_match_iff split: option.splits)
next
  fix k assume "matching_keys fmt = [k]"
  then obtain item where
    item: "filter (\<lambda>item. re_match (fst item) fmt) FORMAT_TO_SIGNING_FUNCTION = [item]"
    and k: "fst item = k"
    by (auto simp: matching_keys_items map_eq_Cons_conv)
  from item have "item \<in> set FORMAT_TO_SIGNING_FUNCTION"
    by (metis filter_is_subset list.set_intros(1) subsetD)
  hence "map_of FORMAT_TO_SIGNING_FUNCTION k = Some (snd item)"
    using registry_keys_distinct k by (metis map_of_eq_Some_iff prod.collapse)
  moreover have "get_signing_function_from_format fmt = Inr (snd item)"
    unfolding get_signing_function_from_format_def by (rule resolve_format_single [OF item])
  ultimately show "\<exists>f. map_of FORMAT_TO_SIGNING_FUNCTION k = Some f
            \<and> get_signing_function_from_format fmt = Inr f" by blast
next
  fix f assume "2 \<le> length (matching_keys fmt)" "map_of FORMAT_TO_SIGNING_FUNCTION fmt = Some f"
  thus "get_signing_function_from_format fmt = Inr f"
    unfolding get_signing_function_from_format_def
    using resolve_format_fallback [OF _ registry_default, of fmt]
    by (simp add: matching_keys_items dict_get_def)
next
  assume "2 \<le> length (matching_keys fmt)" "map_of FORMAT_TO_SIGNING_FUNCTION fmt = None"
  thus "get_signing_function_from_format fmt = Inr sign_file"
    unfolding get_signing_function_from_format_def
    using resolve_format_fallback [OF _ registry_default, of fmt]
    by (simp add: matching_keys_items dict_get_def)
next
  assume none: "matching_keys fmt = []"
  have "map_of FORMAT_TO_SIGNING_FUNCTION fmt = None"
  proof (cases "map_of FORMAT_TO_SIGNING_FUNCTION fmt")
    case (Some f)
    from key_in_matching_keys [OF this] none show ?thesis by simp
  qed simp
  with none show "get_signing_function_from_format fmt = Inr sign_file"
    unfolding get_signing_function_from_format_def
    using resolve_format_fallback [OF _ registry_default, of fmt]
    by (simp add: matching_keys_items dict_get_def)
next
  show "map_of FORMAT_TO_SIGNING_FUNCTION ''default'' = Some sign_file"
    by (rule registry_default)
qed

text \<open>
  The format \<open>autograph_authenticode_stub\<close> is matched by two keys, one of them a prefix of
  it, and resolved through the key equal to it.
\<close>

theorem format_resolver_precedence_witness:
  "2 \<le> length (matching_keys ''autograph_authenticode_stub'')
   \<and> map_of FORMAT_TO_SIGNING_FUNCTION ''autograph_authenticode_stub''
       = Some sign_authenticode_zip
   \<and> get_signing_function_from_format ''autograph_authenticode_stub''
       = Inr sign_authenticode_zip"
proof -
  have two: "2 \<le> length (matching_keys ''autograph_authenticode_stub'')"
    by (simp add: matching_keys_def FORMAT_TO_SIGNING_FUNCTION_def re_eval)
  have key: "map_of FORMAT_TO_SIGNING_FUNCTION ''autograph_authenticode_stub''
               = Some sign_authenticode_zip"
    by (simp add: FORMAT_TO_SIGNING_FUNCTION_def)
  from format_resolver_precedence [of "''autograph_authenticode_stub''"] two key
  show ?thesis by blast
qed

text \<open>
  C1 as stated, with "fully matches the requested string" read as a match of the whole
  string, fails: no key matches the whole of \<open>gpg2\<close>, so the claim gives the operation of
  \<open>"default"\<close>, \<open>sign_file\<close>; the code returns \<open>sign_gpg\<close>, since the key \<open>gpg\<close> matches at
  the start of \<open>gpg2\<close> and is the only one.
\<close>

theorem format_resolver_full_match_counterexample:
  "fully_matching_keys ''gpg2'' = []
   \<and> get_signing_function_from_format ''gpg2'' = Inr sign_gpg
   \<and> map_of FORMAT_TO_SIGNING_FUNCTION ''default'' = Some sign_file
   \<and> sign_gpg \<noteq> sign_file"
  by (simp add: fully_matching_keys_def get_signing_function_from_format_def resolve_format_def
      get_single_item_from_sequence_def FORMAT_TO_SIGNING_FUNCTION_def re_eval)

subsection \<open>Format Orderer\<close>

text \<open>
  C3, as amended. For every format list without duplicates, ordering twice gives the same
  list as ordering once; and the input \<open>["gpg", "widevine", "jar"]\<close> yields
  \<open>["jar", "widevine", "gpg"]\<close>.
\<close>

theorem sort_formats_idempotent:
  "(distinct xs \<longrightarrow> sort_formats (sort_formats xs) = sort_formats xs)
   \<and> sort_formats [''gpg'', ''widevine'', ''jar''] = [''jar'', ''widevine'', ''gpg'']"
proof
  show "distinct xs \<longrightarrow> sort_formats (sort_formats xs) = sort_formats xs"
    by (simp add: sort_formats_idem_distinct)
  show "sort_formats [''gpg'', ''widevine'', ''jar''] = [''jar'', ''widevine'', ''gpg'']"
    by (simp add: sort_formats_def priority_formats_def move_to_end_def)
qed

theorem sort_formats_idempotent_witness:
  "distinct [''gpg'', ''widevine'', ''jar'']
   \<and> sort_formats (sort_formats [''gpg'', ''widevine'', ''jar''])
       = sort_formats [''gpg'', ''widevine'', ''jar'']"
proof -
  have d: "distinct [''gpg'', ''widevine'', ''jar'']" by simp
  from sort_formats_idempotent [of "[''gpg'', ''widevine'', ''jar'']"] d show ?thesis by blast
qed

text \<open>
  C3 as stated, for every list, fails on a list with a duplicate: only the first occurrence
  of a format is moved, so a second pass moves the other one.
\<close>

theorem sort_formats_idempotent_counterexample:
  "sort_formats [''widevine'', ''widevine'', ''jar''] = [''widevine'', ''jar'', ''widevine'']
   \<and> sort_formats (sort_formats [''widevine'', ''widevine'', ''jar''])
       = [''jar'', ''widevine'', ''widevine'']
   \<and> sort_formats (sort_formats [''widevine'', ''widevine'', ''jar''])
       \<noteq> sort_formats [''widevine'', ''widevine'', ''jar'']"
  by (simp add: sort_formats_def priority_formats_def move_to_end_def)

text \<open>
  C6, as amended. Two format lists without duplicates that contain the same formats, and
  whose formats outside the priority list come in the same relative order, are ordered to
  the same list; and whatever the order of the input, the priority formats of the output
  are the same.
\<close>

theorem sort_formats_same_set:
  assumes "distinct xs" and "distinct ys" and "set xs = set ys"
  shows "(filter (\<lambda>x. x \<notin> set priority_formats) xs = filter (\<lambda>x. x \<notin> set priority_formats) ys
            \<longrightarrow> sort_formats xs = sort_formats ys)
         \<and> filter (\<lambda>x. x \<in> set priority_formats) (sort_formats xs)
             = filter (\<lambda>x. x \<in> set priority_formats) (sort_formats ys)"
proof -
  have tail: "filter (\<lambda>x. x \<in> set priority_formats)
                (filter (\<lambda>x. x \<notin> set priority_formats) zs
                 @ filter (\<lambda>p. p \<in> set zs) priority_formats)
              = filter (\<lambda>p. p \<in> set zs) priority_formats" for zs :: "string list"
  proof -
    have a: "filter (\<lambda>x. x \<in> set priority_formats)
               (filter (\<lambda>x. x \<notin> set priority_formats) zs) = []"
      by (rule iffD2 [OF filter_empty_conv]) auto
    have b: "filter (\<lambda>x. x \<in> set priority_formats)
               (filter (\<lambda>p. p \<in> set zs) priority_formats)
             = filter (\<lambda>p. p \<in> set zs) priority_formats"
      by (rule iffD2 [OF filter_id_conv]) auto
    show ?thesis unfolding filter_append a b by simp
  qed
  show ?thesis
    using assms tail [of xs] tail [of ys]
    by (simp add: sort_formats_distinct_eq)
qed

theorem sort_formats_same_set_witness:
  "distinct [''gpg'', ''jar'', ''widevine''] \<and> distinct [''widevine'', ''jar'', ''gpg'']
   \<and> set [''gpg'', ''jar'', ''widevine''] = set [''widevine'', ''jar'', ''gpg'']
   \<and> sort_formats [''gpg'', ''jar'', ''widevine''] = sort_formats [''widevine'', ''jar'', ''gpg'']"
proof -
  have d1: "distinct [''gpg'', ''jar'', ''widevine'']" by simp
  have d2: "distinct [''widevine'', ''jar'', ''gpg'']" by simp
  have s: "set [''gpg'', ''jar'', ''widevine''] = set [''widevine'', ''jar'', ''gpg'']" by auto
  have f: "filter (\<lambda>x. x \<notin> set priority_formats) [''gpg'', ''jar'', ''widevine'']
             = filter (\<lambda>x. x \<notin> set priority_formats) [''widevine'', ''jar'', ''gpg'']"
    by (simp add: priority_formats_def)
  from sort_formats_same_set [OF d1 d2 s] f d1 d2 s show ?thesis by blast
qed

text \<open>
  C6 as stated fails twice. Two permutations of the same formats, none of them in the
  priority list, are each left as they are; and with a duplicate, two permutations that
  agree on the order of the other formats are ordered differently.
\<close>

theorem sort_formats_same_set_counterexample:
  "mset [''jar'', ''focus-jar''] = mset [''focus-jar'', ''jar'']
   \<and> sort_formats [''jar'', ''focus-jar''] = [''jar'', ''focus-jar'']
   \<and> sort_formats [''focus-jar'', ''jar''] = [''focus-jar'', ''jar'']
   \<and> mset [''widevine'', ''widevine'', ''jar''] = mset [''widevine'', ''jar'', ''widevine'']
   \<and> sort_formats [''widevine'', ''widevine'', ''jar''] = [''widevine'', ''jar'', ''widevine'']
   \<and> sort_formats [''widevine'', ''jar'', ''widevine''] = [''jar'', ''widevine'', ''widevine'']"
  by (simp add: sort_formats_def priority_formats_def move_to_end_def)

text \<open>
  C10. The output of \<open>_sort_formats\<close> is a permutation of its input: the same formats with
  the same multiplicities.
\<close>

theorem sort_formats_permutation: "mset (sort_formats xs) = mset xs"
  by (simp add: sort_formats_def foldl_move_to_end_mset)

theorem sort_formats_permutation_witness:
  "mset (sort_formats [''gpg'', ''gpg'', ''jar'']) = mset [''gpg'', ''gpg'', ''jar'']"
  by (rule sort_formats_permutation)

subsection \<open>Scope Authorizer\<close>

text \<open>
  C2, as amended. If the task's scope list contains exactly one scope that starts with a
  constructed full prefix \<open>{base-prefix}:cert:\<close>, and that scope starts with exactly one
  entry of the list of constructed prefixes, \<open>task_cert_type\<close> returns that scope. If there
  is no task, or the task has no scopes at all, or the matching scopes are none or two or
  more (counted once each, or once per prefix they start with, as the code's filtered list
  does), or the entries of the filtered list do not all share one constructed prefix,
  \<open>task_cert_type\<close> raises \<open>TaskVerificationError\<close>. It returns a scope exactly when the
  filtered list consists of that scope alone.
\<close>

theorem task_cert_type_single_scope:
  "(task ctx = None \<longrightarrow> (\<exists>e. task_cert_type ctx = Inl e \<and> is_TaskVerificationError e))
   \<and> (\<forall>t. task ctx = Some t \<longrightarrow>
        (\<forall>s. scopes_with_cert_prefix ctx t = [s]
               \<and> length (filter (startswith s) (get_cert_prefixes ctx)) = 1
             \<longrightarrow> task_cert_type ctx = Inr s)
        \<and> (scopes t = [] \<or> length (scopes_with_cert_prefix ctx t) \<noteq> 1
             \<or> length (cert_scopes ctx t) \<noteq> 1
             \<or> \<not> (\<exists>p \<in> set (get_cert_prefixes ctx). \<forall>s \<in> set (cert_scopes ctx t). startswith s p)
             \<longrightarrow> (\<exists>e. task_cert_type ctx = Inl e \<and> is_TaskVerificationError e))
        \<and> (\<forall>s. task_cert_type ctx = Inr s \<longleftrightarrow> cert_scopes ctx t = [s]))"
proof (intro conjI allI impI)
  assume "task ctx = None"
  then show "\<exists>e. task_cert_type ctx = Inl e \<and> is_TaskVerificationError e"
    by (simp add: task_cert_type_def)
next
  fix t s
  assume t: "task ctx = Some t"
    and "scopes_with_cert_prefix ctx t = [s]
           \<and> length (filter (startswith s) (get_cert_prefixes ctx)) = 1"
  hence one: "filter (\<lambda>x. \<exists>p \<in> set (get_cert_prefixes ctx). startswith x p) (scopes t) = [s]"
    and pfx: "length (filter (startswith s) (get_cert_prefixes ctx)) = 1"
    by (simp_all add: scopes_with_cert_prefix_alt)
  have "cert_scopes ctx t = [s]"
    unfolding cert_scopes_def by (rule comprehension_single [OF one pfx])
  then show "task_cert_type ctx = Inr s"
    by (simp add: task_cert_type_some [OF t])
next
  fix t
  assume t: "task ctx = Some t"
    and bad: "scopes t = [] \<or> length (scopes_with_cert_prefix ctx t) \<noteq> 1
             \<or> length (cert_scopes ctx t) \<noteq> 1
             \<or> \<not> (\<exists>p \<in> set (get_cert_prefixes ctx). \<forall>s \<in> set (cert_scopes ctx t). startswith s p)"
  have "length (cert_scopes ctx t) \<noteq> 1"
  proof (cases "length (scopes_with_cert_prefix ctx t) \<noteq> 1")
    case True
    then show ?thesis by (rule cert_scopes_not_single)
  next
    case False
    show ?thesis
    proof
      assume "length (cert_scopes ctx t) = 1"
      then obtain s where s: "cert_scopes ctx t = [s]"
        by (auto simp: length_Suc_conv)
      hence "s \<in> set (cert_scopes ctx t)" by simp
      then obtain p where "p \<in> set (get_cert_prefixes ctx)" "startswith s p" "s \<in> set (scopes t)"
        unfolding cert_scopes_def in_comprehension by blast
      with s bad False show False by auto
    qed
  qed
  then show "\<exists>e. task_cert_type ctx = Inl e \<and> is_TaskVerificationError e"
    by (simp add: task_cert_type_some [OF t])
next
  fix t s
  assume t: "task ctx = Some t"
  show "task_cert_type ctx = Inr s \<longleftrightarrow> cert_scopes ctx t = [s]"
  proof (cases "length (cert_scopes ctx t) = 1")
    case True
    then obtain s' where "cert_scopes ctx t = [s']" by (auto simp: length_Suc_conv)
    then show ?thesis by (simp add: task_cert_type_some [OF t])
  next
    case False
    then show ?thesis by (auto simp: task_cert_type_some [OF t])
  qed
qed

theorem task_cert_type_single_scope_witness:
  "task (demo_context [''p'', ''q:''] [''p:cert:x'', ''z''] []) \<noteq> None
   \<and> scopes_with_cert_prefix (demo_context [''p'', ''q:''] [''p:cert:x'', ''z''] [])
        (the (task (demo_context [''p'', ''q:''] [''p:cert:x'', ''z''] []))) = [''p:cert:x'']
   \<and> length (filter (startswith ''p:cert:x'')
        (get_cert_prefixes (demo_context [''p'', ''q:''] [''p:cert:x'', ''z''] []))) = 1
   \<and> task_cert_type (demo_context [''p'', ''q:''] [''p:cert:x'', ''z''] []) = Inr ''p:cert:x''"
proof -
  let ?ctx = "demo_context [''p'', ''q:''] [''p:cert:x'', ''z''] []"
  let ?t = "\<lparr>scopes = [''p:cert:x'', ''z''], payload = \<lparr>upstreamArtifacts = []\<rparr>\<rparr>"
  have t: "task ?ctx = Some ?t" by (simp add: demo_context_def)
  have P: "get_cert_prefixes ?ctx = [''p:cert:'', ''q:cert:'']"
    by (simp add: demo_context_def get_cert_prefixes_def get_scope_prefixes_def endswith_def)
  have one: "scopes_with_cert_prefix ?ctx ?t = [''p:cert:x'']"
    by (simp add: scopes_with_cert_prefix_def starts_with_any_def P startswith_def)
  have pfx: "length (filter (startswith ''p:cert:x'') (get_cert_prefixes ?ctx)) = 1"
    by (simp add: P startswith_def)
  from task_cert_type_single_scope [of ?ctx] t one pfx
  have "task_cert_type ?ctx = Inr ''p:cert:x''" by blast
  with t one pfx show ?thesis by simp
qed

text \<open>
  C2 as stated fails when two entries of the configured prefix list give the same
  constructed prefix (\<open>p\<close> and \<open>p:\<close> both give \<open>p:cert:\<close>): the task has exactly one scope
  starting with a constructed prefix, the comprehension lists it twice, and
  \<open>task_cert_type\<close> raises "More than one scope found".
\<close>

theorem task_cert_type_single_scope_counterexample:
  "task (demo_context [''p'', ''p:''] [''p:cert:x''] [])
     = Some \<lparr>scopes = [''p:cert:x''], payload = \<lparr>upstreamArtifacts = []\<rparr>\<rparr>
   \<and> scopes_with_cert_prefix (demo_context [''p'', ''p:''] [''p:cert:x''] [])
        \<lparr>scopes = [''p:cert:x''], payload = \<lparr>upstreamArtifacts = []\<rparr>\<rparr> = [''p:cert:x'']
   \<and> task_cert_type (demo_context [''p'', ''p:''] [''p:cert:x''] [])
        = Inl (TaskVerificationError [''More than one scope found''])"
  by (simp add: demo_context_def scopes_with_cert_prefix_def starts_with_any_def
      get_cert_prefixes_def get_scope_prefixes_def endswith_def startswith_def
      task_cert_type_def extract_scopes_from_unique_prefix_def
      check_scopes_exist_and_all_have_the_same_prefix_def get_single_item_from_sequence_def)

subsection \<open>Upstream Artifact Resolver\<close>

text \<open>
  C4, as amended. For every task payload and work directory: the absolute location of a
  path is \<open>os.path.join(work_dir, "cot", taskId, path)\<close>, which is
  \<open>{work_dir}/cot/{taskId}/{path}\<close> when the work directory and the task id are not empty
  and no component has a leading or trailing separator, and is the path itself when the
  path starts with a separator. If any of these locations is not on disk,
  \<open>build_filelist_dict\<close> raises one \<open>TaskVerificationError\<close> whose report has the line
  "\<open>location\<close> doesn't exist!" for every missing location, in the order visited, not
  just the first. If all are on disk it returns a dict whose keys are the relative paths
  of all groups; the entry of a path holds the location computed from the last group that
  lists the path, and the formats list of that group as the ordering left it in place:
  ordered once per path of the group, which for a group without duplicate formats is the
  list ordered once.
\<close>

theorem build_filelist_dict_reports_all_missing:
  assumes "task ctx = Some t"
  shows "(missing_locations pe (work_dir (config ctx)) (upstreamArtifacts (payload t)) \<noteq> [] \<longrightarrow>
            build_filelist_dict pe ctx
              = Inl (TaskVerificationError
                  (map (\<lambda>fp. fp @ '' doesn'' @ [CHR 0x27] @ ''t exist!'')
                     (missing_locations pe (work_dir (config ctx)) (upstreamArtifacts (payload t))))))
       \<and> (\<forall>a p. location (work_dir (config ctx)) a p
                   = os_path_join (work_dir (config ctx)) [''cot'', taskId a, p])
       \<and> (\<forall>a p. work_dir (config ctx) \<noteq> [] \<and> \<not> endswith (work_dir (config ctx)) ''/''
                 \<and> taskId a \<noteq> [] \<and> \<not> startswith (taskId a) ''/'' \<and> \<not> endswith (taskId a) ''/''
                 \<and> \<not> startswith p ''/''
              \<longrightarrow> location (work_dir (config ctx)) a p
                    = template_location (work_dir (config ctx)) a p)
       \<and> (\<forall>a p. startswith p ''/'' \<longrightarrow> location (work_dir (config ctx)) a p = p)
       \<and> (missing_locations pe (work_dir (config ctx)) (upstreamArtifacts (payload t)) = [] \<longrightarrow>
            (\<exists>d h. build_filelist_dict pe ctx = Inr (d, h)
               \<and> dom d = (\<Union>a\<in>set (upstreamArtifacts (payload t)). set (paths a))
               \<and> (\<forall>p e. d p = Some e \<longrightarrow>
                     formats_ref e < length (upstreamArtifacts (payload t))
                     \<and> p \<in> set (paths (upstreamArtifacts (payload t) ! formats_ref e))
                     \<and> (\<forall>j<length (upstreamArtifacts (payload t)).
                           p \<in> set (paths (upstreamArtifacts (payload t) ! j)) \<longrightarrow> j \<le> formats_ref e)
                     \<and> full_path e
                         = location (work_dir (config ctx))
                             (upstreamArtifacts (payload t) ! formats_ref e) p
                     \<and> entry_formats h e
                         = formats (reordered (upstreamArtifacts (payload t) ! formats_ref e))
                     \<and> (distinct (formats (upstreamArtifacts (payload t) ! formats_ref e)) \<longrightarrow>
                           entry_formats h e
                             = sort_formats (formats (upstreamArtifacts (payload t) ! formats_ref e))))))"
proof -
  let ?wd = "work_dir (config ctx)"
  let ?arts = "upstreamArtifacts (payload t)"
  let ?st = "artifacts_loop pe ?wd ?arts"
  have inv: "loop_inv pe ?wd ?arts (length ?arts) ?st" by (rule artifacts_loop_inv)
  hence len: "length (heap ?st) = length ?arts"
    and nth: "\<And>j. j < length ?arts \<Longrightarrow> heap ?st ! j = reordered (?arts ! j)"
    and msgs: "messages ?st = map doesnt_exist (missing_locations pe ?wd ?arts)"
    and dm: "dom (filelist_dict ?st) = (\<Union>a\<in>set ?arts. set (paths a))"
    and ent: "\<And>p e. filelist_dict ?st p = Some e \<Longrightarrow>
            formats_ref e < length ?arts \<and> p \<in> set (paths (?arts ! formats_ref e))
            \<and> full_path e = location ?wd (?arts ! formats_ref e) p
            \<and> (\<forall>j<length ?arts. p \<in> set (paths (?arts ! j)) \<longrightarrow> j \<le> formats_ref e)"
    unfolding loop_inv_def by simp_all
  have build: "build_filelist_dict pe ctx
                 = (if messages ?st \<noteq> [] then Inl (TaskVerificationError (messages ?st))
                    else Inr (filelist_dict ?st, heap ?st))"
    using assms by (simp add: build_filelist_dict_def Let_def)
  show ?thesis
  proof (intro conjI impI allI)
    assume "missing_locations pe ?wd ?arts \<noteq> []"
    then show "build_filelist_dict pe ctx
                 = Inl (TaskVerificationError
                     (map (\<lambda>fp. fp @ '' doesn'' @ [CHR 0x27] @ ''t exist!'')
                        (missing_locations pe ?wd ?arts)))"
      by (simp add: build msgs doesnt_exist_fun)
  next
    fix a :: artifact and p
    show "location ?wd a p = os_path_join ?wd [''cot'', taskId a, p]"
      by (simp add: location_def)
  next
    fix a :: artifact and p
    assume "?wd \<noteq> [] \<and> \<not> endswith ?wd ''/''
                 \<and> taskId a \<noteq> [] \<and> \<not> startswith (taskId a) ''/'' \<and> \<not> endswith (taskId a) ''/''
                 \<and> \<not> startswith p ''/''"
    then show "location ?wd a p = template_location ?wd a p"
      by (simp add: location_template template_location_def)
  next
    fix a :: artifact and p
    assume "startswith p ''/''"
    then show "location ?wd a p = p"
      by (simp add: location_def os_path_join_def join_step_def)
  next
    assume none: "missing_locations pe ?wd ?arts = []"
    have entries: "formats_ref e < length ?arts
                     \<and> p \<in> set (paths (?arts ! formats_ref e))
                     \<and> (\<forall>j<length ?arts. p \<in> set (paths (?arts ! j)) \<longrightarrow> j \<le> formats_ref e)
                     \<and> full_path e = location ?wd (?arts ! formats_ref e) p
                     \<and> entry_formats (heap ?st) e = formats (reordered (?arts ! formats_ref e))
                     \<and> (distinct (formats (?arts ! formats_ref e)) \<longrightarrow>
                           entry_formats (heap ?st) e = sort_formats (formats (?arts ! formats_ref e)))"
      if pe: "filelist_dict ?st p = Some e" for p e
    proof -
      note e = ent [OF pe]
      hence r: "formats_ref e < length ?arts" and p: "p \<in> set (paths (?arts ! formats_ref e))"
        by simp_all
      have ef: "entry_formats (heap ?st) e = formats (reordered (?arts ! formats_ref e))"
        by (simp add: entry_formats_def nth [OF r])
      from p have "0 < length (paths (?arts ! formats_ref e))" by (cases "paths (?arts ! formats_ref e)") auto
      hence "distinct (formats (?arts ! formats_ref e)) \<Longrightarrow>
               formats (reordered (?arts ! formats_ref e)) = sort_formats (formats (?arts ! formats_ref e))"
        by (simp add: reordered_def sort_formats_funpow_distinct)
      with e ef show ?thesis by simp
    qed
    have "build_filelist_dict pe ctx = Inr (filelist_dict ?st, heap ?st)"
      by (simp add: build msgs none)
    with dm entries show "\<exists>d h. build_filelist_dict pe ctx = Inr (d, h)
               \<and> dom d = (\<Union>a\<in>set ?arts. set (paths a))
               \<and> (\<forall>p e. d p = Some e \<longrightarrow>
                     formats_ref e < length ?arts
                     \<and> p \<in> set (paths (?arts ! formats_ref e))
                     \<and> (\<forall>j<length ?arts. p \<in> set (paths (?arts ! j)) \<longrightarrow> j \<le> formats_ref e)
                     \<and> full_path e = location ?wd (?arts ! formats_ref e) p
                     \<and> entry_formats h e = formats (reordered (?arts ! formats_ref e))
                     \<and> (distinct (formats (?arts ! formats_ref e)) \<longrightarrow>
                           entry_formats h e = sort_formats (formats (?arts ! formats_ref e))))"
      by blast
  qed
qed

text \<open>
  The group of the spec's example: the paths \<open>a\<close>, \<open>b\<close> and \<open>c\<close>, of which only \<open>b\<close> is on
  disk. The error names \<open>a\<close> and \<open>c\<close>.
\<close>

theorem build_filelist_dict_reports_all_missing_witness:
  "task (demo_context [] [] [\<lparr>taskId = ''t1'', paths = [''a'', ''b'', ''c''], formats = [''gpg'']\<rparr>])
     \<noteq> None
   \<and> build_filelist_dict (\<lambda>p. p = ''/work/cot/t1/b'')
       (demo_context [] [] [\<lparr>taskId = ''t1'', paths = [''a'', ''b'', ''c''], formats = [''gpg'']\<rparr>])
     = Inl (TaskVerificationError
         [''/work/cot/t1/a doesn'' @ [CHR 0x27] @ ''t exist!'',
          ''/work/cot/t1/c doesn'' @ [CHR 0x27] @ ''t exist!''])"
proof -
  let ?arts = "[\<lparr>taskId = ''t1'', paths = [''a'', ''b'', ''c''], formats = [''gpg'']\<rparr>]"
  let ?ctx = "demo_context [] [] ?arts"
  let ?t = "\<lparr>scopes = [], payload = \<lparr>upstreamArtifacts = ?arts\<rparr>\<rparr>"
  have t: "task ?ctx = Some ?t" by (simp add: demo_context_def)
  have wd: "work_dir (config ?ctx) = ''/work''" by (simp add: demo_context_def)
  have miss: "missing_locations (\<lambda>p. p = ''/work/cot/t1/b'') ''/work'' ?arts
                = [''/work/cot/t1/a'', ''/work/cot/t1/c'']"
    by (simp add: missing_locations_def all_locations_def location_def os_path_join_def
        join_step_def startswith_def endswith_def)
  from build_filelist_dict_reports_all_missing [OF t, of "\<lambda>p. p = ''/work/cot/t1/b''"] miss wd t
  show ?thesis by simp
qed

text \<open>
  C4 as stated fails on an absolute path: for the path \<open>/tmp\<close> the location is \<open>/tmp\<close>, not
  \<open>/work/cot/t1//tmp\<close>; with only \<open>/tmp\<close> on disk the template location is missing, yet
  \<open>build_filelist_dict\<close> returns the entry for \<open>/tmp\<close>. And the formats of an entry are not
  the group's formats ordered once when the group has two paths and a duplicate format.
\<close>

theorem build_filelist_dict_reports_all_missing_counterexample:
  "template_location ''/work'' \<lparr>taskId = ''t1'', paths = [''/tmp''], formats = [''gpg'']\<rparr> ''/tmp''
     = ''/work/cot/t1//tmp''
   \<and> ''/tmp'' \<noteq> ''/work/cot/t1//tmp''
   \<and> result_entry (build_filelist_dict ((=) ''/tmp'')
        (demo_context [] [] [\<lparr>taskId = ''t1'', paths = [''/tmp''], formats = [''gpg'']\<rparr>])) ''/tmp''
       = Some \<lparr>full_path = ''/tmp'', formats_ref = 0\<rparr>
   \<and> result_formats (build_filelist_dict everything_exists
        (demo_context [] []
           [\<lparr>taskId = ''t1'', paths = [''a'', ''b''],
             formats = [''widevine'', ''widevine'', ''jar'']\<rparr>])) ''a''
       = Some [''jar'', ''widevine'', ''widevine'']
   \<and> sort_formats [''widevine'', ''widevine'', ''jar''] = [''widevine'', ''jar'', ''widevine'']"
proof -
  let ?a1 = "\<lparr>taskId = ''t1'', paths = [''/tmp''], formats = [''gpg'']\<rparr>"
  let ?a2 = "\<lparr>taskId = ''t1'', paths = [''a'', ''b''],
              formats = [''widevine'', ''widevine'', ''jar'']\<rparr>"
  have t: "template_location ''/work'' ?a1 ''/tmp'' = ''/work/cot/t1//tmp''"
    by (simp add: template_location_def)
  have n: "''/tmp'' \<noteq> ''/work/cot/t1//tmp''" by simp
  have loc: "location ''/work'' ?a1 ''/tmp'' = ''/tmp''"
    by (simp add: location_def os_path_join_def join_step_def startswith_def)
  have "list_all ((=) ''/tmp'') (map (location ''/work'' ?a1) (paths ?a1))"
    by (simp add: loc)
  from single_group_build [OF this, of "[]" "[]"]
  have e: "result_entry (build_filelist_dict ((=) ''/tmp'') (demo_context [] [] [?a1])) ''/tmp''
             = Some \<lparr>full_path = ''/tmp'', formats_ref = 0\<rparr>"
    by (simp add: result_entry_def loc)
  have s1: "sort_formats [''widevine'', ''widevine'', ''jar''] = [''widevine'', ''jar'', ''widevine'']"
    by (simp add: sort_formats_def priority_formats_def move_to_end_def)
  have s2: "sort_formats [''widevine'', ''jar'', ''widevine''] = [''jar'', ''widevine'', ''widevine'']"
    by (simp add: sort_formats_def priority_formats_def move_to_end_def)
  have r: "formats (reordered ?a2) = [''jar'', ''widevine'', ''widevine'']"
    by (simp add: reordered_def s1 s2)
  have "list_all everything_exists (map (location ''/work'' ?a2) (paths ?a2))"
    by (simp add: everything_exists_def)
  from single_group_build [OF this, of "[]" "[]"]
  have f: "result_formats (build_filelist_dict everything_exists (demo_context [] [] [?a2])) ''a''
             = Some [''jar'', ''widevine'', ''widevine'']"
    by (simp add: result_formats_def entry_formats_def r)
  from t n e f s1 show ?thesis by blast
qed

subsection \<open>Archive Lifecycle Manager\<close>

text \<open>
  C5, as amended. In the format loop of \<open>sign\<close>, whenever the next format is not
  archive-aware and the current location is an unpacked directory, the first thing the
  step does is to repack that directory with \<open>make_archive\<close>, using the original
  extension, and the destination it asks for is the original input path: the same
  destination as the final repack, not a distinct one. If the repack raises, so does the
  loop.
\<close>

theorem intermediate_repack_destination:
  assumes "fmt \<notin> set archive_formats" and "isdir E w d"
  shows "(\<exists>rest. snd (sign_loop E (archive_ext_of path) path (fmt # fmts) (PStr d) r w)
                   = snd (make_archive E w (PStr d) (archive_ext_of path) path) @ rest)
       \<and> (\<forall>e. fst (make_archive E w (PStr d) (archive_ext_of path) path) = Inl e
              \<longrightarrow> fst (sign_loop E (archive_ext_of path) path (fmt # fmts) (PStr d) r w) = Inl e)
       \<and> list_all (repack_with (archive_ext_of path) path)
            (snd (make_archive E w (PStr d) (archive_ext_of path) path))
       \<and> (\<forall>files. get_files E w (PStr d) = Inr files \<and> archive_ext_of path = Some ''.zip''
              \<longrightarrow> snd (make_archive E w (PStr d) (archive_ext_of path) path)
                    = [GetFiles (PStr d), CreateZip path files (PStr d)])"
proof (intro conjI allI impI)
  show "\<exists>rest. snd (sign_loop E (archive_ext_of path) path (fmt # fmts) (PStr d) r w)
                   = snd (make_archive E w (PStr d) (archive_ext_of path) path) @ rest"
    by (rule intermediate_step(1) [OF assms])
next
  fix e assume "fst (make_archive E w (PStr d) (archive_ext_of path) path) = Inl e"
  then show "fst (sign_loop E (archive_ext_of path) path (fmt # fmts) (PStr d) r w) = Inl e"
    by (rule intermediate_step(2) [OF assms])
next
  show "list_all (repack_with (archive_ext_of path) path)
          (snd (make_archive E w (PStr d) (archive_ext_of path) path))"
    by (rule make_archive_calls)
next
  fix files
  assume "get_files E w (PStr d) = Inr files \<and> archive_ext_of path = Some ''.zip''"
  then show "snd (make_archive E w (PStr d) (archive_ext_of path) path)
               = [GetFiles (PStr d), CreateZip path files (PStr d)]"
    by (simp add: make_archive_def)
qed

theorem intermediate_repack_destination_witness:
  "''jar'' \<notin> set archive_formats \<and> isdir demo_env [''app.zip.tmp''] ''app.zip.tmp''
   \<and> get_files demo_env [''app.zip.tmp''] (PStr ''app.zip.tmp'') = Inr []
   \<and> archive_ext_of ''app.zip'' = Some ''.zip''
   \<and> snd (make_archive demo_env [''app.zip.tmp''] (PStr ''app.zip.tmp'')
            (archive_ext_of ''app.zip'') ''app.zip'')
       = [GetFiles (PStr ''app.zip.tmp''), CreateZip ''app.zip'' [] (PStr ''app.zip.tmp'')]"
proof -
  have a: "''jar'' \<notin> set archive_formats" by (simp add: archive_formats_def)
  have b: "isdir demo_env [''app.zip.tmp''] ''app.zip.tmp''" by (simp add: demo_env_def)
  have c: "get_files demo_env [''app.zip.tmp''] (PStr ''app.zip.tmp'') = Inr []"
    by (simp add: demo_env_def)
  have d: "archive_ext_of ''app.zip'' = Some ''.zip''"
    by (simp add: archive_ext_of_def endswith_def)
  from intermediate_repack_destination [OF a b, of "''app.zip''"] a b c d
  show ?thesis by blast
qed

text \<open>
  C5 as stated fails: \<open>app.zip\<close> signed with an archive-aware format and then \<open>jar\<close> is
  unpacked, and before \<open>jar\<close> the working directory is packed into \<open>app.zip\<close> itself, the
  original input path and the destination of any final repack; \<open>jar\<close> then signs
  \<open>app.zip\<close>.
\<close>

theorem intermediate_repack_destination_counterexample:
  "sign demo_env [] ''app.zip'' [''autograph_widevine'', ''jar'']
     = (Inr (PList [''app.zip''], [''app.zip.tmp'']),
        [Extract (PStr ''app.zip''),
         Sign sign_widevine (PStr ''app.zip.tmp'') ''autograph_widevine'',
         GetFiles (PStr ''app.zip.tmp''),
         CreateZip ''app.zip'' [] (PStr ''app.zip.tmp''),
         Sign sign_jar (PStr ''app.zip'') ''jar''])"
  by (simp add: sign_def archive_ext_of_def endswith_def resolve_widevine resolve_jar
      archive_step_def archive_formats_def make_archive_def demo_env_def)

text \<open>
  C7. Every repack that \<open>sign\<close> performs, in the loop or after it, writes to the original
  input path and in the container format of that path's extension: a zip file for
  \<open>.zip\<close>, a tar file compressed with \<open>gz\<close> for \<open>.tar.gz\<close> and with \<open>bz2\<close> for
  \<open>.tar.bz2\<close>. When the loop ends with a repack owed, the calls of \<open>sign\<close> are those of
  the loop followed by those of one \<open>make_archive\<close> on the original extension and path.
\<close>

theorem sign_repacks_keep_container_format:
  "list_all (repack_with (archive_ext_of path) path) (snd (sign E w path signing_formats))
   \<and> (\<forall>e. archive_ext_of path = Some e
          \<longrightarrow> e \<in> {''.zip'', ''.tar.gz'', ''.tar.bz2''} \<and> endswith path e)
   \<and> (\<forall>out w1 cs.
         sign_loop E (archive_ext_of path) path signing_formats (PStr path) False w
           = (Inr ((out, True), w1), cs)
         \<longrightarrow> snd (sign E w path signing_formats)
               = cs @ snd (make_archive E w1 out (archive_ext_of path) path))"
  using sign_calls [of path E w signing_formats] archive_ext_of_cases [of path]
    sign_final_repack [of E path signing_formats w]
  by blast

theorem sign_repacks_keep_container_format_witness:
  "list_all (repack_with (archive_ext_of ''app.tar.gz'') ''app.tar.gz'')
     (snd (sign demo_env [] ''app.tar.gz'' [''autograph_widevine'']))
   \<and> snd (sign demo_env [] ''app.tar.gz'' [''autograph_widevine''])
       = [Extract (PStr ''app.tar.gz''),
          Sign sign_widevine (PStr ''app.tar.gz.tmp'') ''autograph_widevine'',
          GetFiles (PStr ''app.tar.gz.tmp''),
          CreateTar ''app.tar.gz'' [] ''gz'' (PStr ''app.tar.gz.tmp'')]"
proof -
  have "snd (sign demo_env [] ''app.tar.gz'' [''autograph_widevine''])
       = [Extract (PStr ''app.tar.gz''),
          Sign sign_widevine (PStr ''app.tar.gz.tmp'') ''autograph_widevine'',
          GetFiles (PStr ''app.tar.gz.tmp''),
          CreateTar ''app.tar.gz'' [] ''gz'' (PStr ''app.tar.gz.tmp'')]"
    by (simp add: sign_def archive_ext_of_def endswith_def resolve_widevine
        archive_step_def archive_formats_def make_archive_def demo_env_def)
  with sign_repacks_keep_container_format [of "''app.tar.gz''" demo_env "[]" "[''autograph_widevine'']"]
  show ?thesis by blast
qed




text \<open>
  C9. For an archive extension other than \<open>.zip\<close>, \<open>.tar.gz\<close> and \<open>.tar.bz2\<close> (also for no
  extension at all), \<open>make_archive\<close> raises: no packer is called, and once the files of the
  directory are listed the error is the \<open>ValueError\<close> "Unsupported archive format". For
  each of the three supported extensions it does not raise by itself: after listing the
  files its outcome is that of the zip packer, or of the tar packer with the compression
  \<open>gz\<close> or \<open>bz2\<close>.
\<close>

theorem make_archive_unsupported_extension:
  "(archive_ext \<notin> {Some ''.zip'', Some ''.tar.gz'', Some ''.tar.bz2''} \<longrightarrow>
       (\<exists>e. fst (make_archive E w dirname archive_ext output) = Inl e)
       \<and> snd (make_archive E w dirname archive_ext output) = [GetFiles dirname]
       \<and> (\<forall>files. get_files E w dirname = Inr files \<longrightarrow>
             fst (make_archive E w dirname archive_ext output)
               = Inl (unsupported_archive_format archive_ext)))
   \<and> (\<forall>files. get_files E w dirname = Inr files \<longrightarrow>
        (archive_ext = Some ''.zip'' \<longrightarrow>
           make_archive E w dirname archive_ext output
             = (create_zipfile E w output files dirname,
                [GetFiles dirname, CreateZip output files dirname]))
        \<and> (archive_ext = Some ''.tar.gz'' \<longrightarrow>
           make_archive E w dirname archive_ext output
             = (create_tarfile E w output files ''gz'' dirname,
                [GetFiles dirname, CreateTar output files ''gz'' dirname]))
        \<and> (archive_ext = Some ''.tar.bz2'' \<longrightarrow>
           make_archive E w dirname archive_ext output
             = (create_tarfile E w output files ''bz2'' dirname,
                [GetFiles dirname, CreateTar output files ''bz2'' dirname])))"
  by (auto simp: make_archive_def Let_def split: sum.splits)

theorem make_archive_unsupported_extension_witness:
  "Some ''.rar'' \<notin> {Some ''.zip'', Some ''.tar.gz'', Some ''.tar.bz2''}
   \<and> get_files demo_env [] (PStr ''dir'') = Inr []
   \<and> fst (make_archive demo_env [] (PStr ''dir'') (Some ''.rar'') ''app.rar'')
       = Inl (ValueError ''Unsupported archive format .rar'')
   \<and> make_archive demo_env [] (PStr ''dir'') (Some ''.tar.bz2'') ''app.tar.bz2''
       = (Inr (PStr ''app.tar.bz2'', []),
          [GetFiles (PStr ''dir''), CreateTar ''app.tar.bz2'' [] ''bz2'' (PStr ''dir'')])"
proof -
  have a: "Some ''.rar'' \<notin> {Some ''.zip'', Some ''.tar.gz'', Some ''.tar.bz2''}" by simp
  have b: "get_files demo_env [] (PStr ''dir'') = Inr []" by (simp add: demo_env_def)
  have c: "create_tarfile demo_env [] ''app.tar.bz2'' [] ''bz2'' (PStr ''dir'')
             = Inr (PStr ''app.tar.bz2'', [])" by (simp add: demo_env_def)
  have d: "unsupported_archive_format (Some ''.rar'') = ValueError ''Unsupported archive format .rar''"
    by (simp add: unsupported_archive_format_def)
  from make_archive_unsupported_extension [of "Some ''.rar''" demo_env "[]" "PStr ''dir''" "''app.rar''"]
    a b d
  have 1: "fst (make_archive demo_env [] (PStr ''dir'') (Some ''.rar'') ''app.rar'')
             = Inl (ValueError ''Unsupported archive format .rar'')" by simp
  from make_archive_unsupported_extension
         [of "Some ''.tar.bz2''" demo_env "[]" "PStr ''dir''" "''app.tar.bz2''"] b c
  have 2: "make_archive demo_env [] (PStr ''dir'') (Some ''.tar.bz2'') ''app.tar.bz2''
       = (Inr (PStr ''app.tar.bz2'', []),
          [GetFiles (PStr ''dir''), CreateTar ''app.tar.bz2'' [] ''bz2'' (PStr ''dir'')])"
    by simp
  from a b 1 2 show ?thesis by blast
qed

end
